theory Spec2Isabelle
  imports Main
begin

section \<open>Constants and data model (src/main.go, CONSTANTS AND CONFIGURATION, DATA STRUCTURES)\<close>

text \<open>
  src/main.go holds three successive versions of the program, one after the other. The
  model follows the last one (from the constants \<open>BOARD_ROWS\<close>, ... to aiMoveAPI), the
  version with checkDirection, checkGameEnd and startNewGame.

  The Go constants. Go's \<open>int\<close> is modelled by \<open>int\<close>. The board indices and the
  counters stay far from the 64-bit limits: every step of an index is made after a
  test that the index is inside the board. The one computation on a number the state
  holds as it is, the turn switch of checkGameEnd, keeps the wrap-around of Go's 64-bit
  \<open>int\<close> (\<open>int64\<close> below).
\<close>

definition int64 :: "int \<Rightarrow> int" where
  "int64 x = (x + 2 ^ 63) mod 2 ^ 64 - 2 ^ 63"

abbreviation (input) BOARD_ROWS :: int where "BOARD_ROWS \<equiv> 6"

abbreviation (input) BOARD_COLS :: int where "BOARD_COLS \<equiv> 7"

abbreviation (input) WINNING_COUNT :: int where "WINNING_COUNT \<equiv> 4"

abbreviation (input) PLAYER_1 :: int where "PLAYER_1 \<equiv> 1"

abbreviation (input) PLAYER_2 :: int where "PLAYER_2 \<equiv> 2"

abbreviation (input) PLAYER_DRAW :: int where "PLAYER_DRAW \<equiv> 3"

abbreviation (input) CELL_EMPTY :: int where "CELL_EMPTY \<equiv> 0"

abbreviation (input) GAME_MODE_TWO_PLAYER :: string where "GAME_MODE_TWO_PLAYER \<equiv> ''twoPlayer''"

abbreviation (input) GAME_MODE_AI :: string where "GAME_MODE_AI \<equiv> ''ai''"

text \<open>
  The status texts are display strings that no function of the program reads back. The
  model keeps one constructor for each distinct string literal of the source.
\<close>

datatype message =
    MsgNone             \<comment> \<open>the empty string\<close>
  | MsgInvalidColumn    \<comment> \<open>"Colonne invalide" (handleMove)\<close>
  | MsgColumnFull       \<comment> \<open>"Colonne pleine !" (handleMove)\<close>
  | MsgDraw             \<comment> \<open>"Match nul !" (checkGameEnd)\<close>
  | MsgPlayer1Wins      \<comment> \<open>getWinnerMessage, case PLAYER_1\<close>
  | MsgPlayer2Wins      \<comment> \<open>getWinnerMessage, case PLAYER_2\<close>
  | MsgDrawPerfect      \<comment> \<open>getWinnerMessage, case PLAYER_DRAW\<close>

text \<open>
  \<open>Board\<close> is the Go array \<open>[BOARD_ROWS][BOARD_COLS]int\<close>, a list of rows. The Go type
  fixes the shape; in the model the shape is the predicate \<open>wf_board\<close>.
\<close>

type_synonym board = "int list list"

record GameState =
  Board :: board
  CurrentPlayer :: int
  Mode :: string
  GameOver :: bool
  Winner :: int
  StatusMessage :: message

definition wf_board :: "board \<Rightarrow> bool" where
  "wf_board b \<longleftrightarrow> length b = nat BOARD_ROWS \<and> (\<forall>r \<in> set b. length r = nat BOARD_COLS)"

text \<open>
  A Go array access with an index outside the array panics; the panic is the only
  error the core can raise. The second error value stands for a counting loop of
  \<open>checkDirection\<close> that does not return.
\<close>

datatype error = IndexOutOfRange | Diverges

definition inBoard :: "int \<Rightarrow> int \<Rightarrow> bool" where
  "inBoard i j \<longleftrightarrow> 0 \<le> i \<and> i < BOARD_ROWS \<and> 0 \<le> j \<and> j < BOARD_COLS"

definition cell :: "board \<Rightarrow> int \<Rightarrow> int \<Rightarrow> int" where
  "cell b i j = b ! nat i ! nat j"

text \<open>\<open>currentGame.Board[i][j]\<close> as an unguarded read: it panics outside the array.\<close>

definition index :: "board \<Rightarrow> int \<Rightarrow> int \<Rightarrow> error + int" where
  "index b i j = (if inBoard i j then Inr (cell b i j) else Inl IndexOutOfRange)"

text \<open>\<open>currentGame.Board[i][j] = v\<close>, used only after a read of the same cell succeeded.\<close>

definition setCell :: "board \<Rightarrow> int \<Rightarrow> int \<Rightarrow> int \<Rightarrow> board" where
  "setCell b i j v = b[nat i := (b ! nat i)[nat j := v]]"

definition emptyBoard :: board where
  "emptyBoard = replicate (nat BOARD_ROWS) (replicate (nat BOARD_COLS) CELL_EMPTY)"

text \<open>startNewGame (and initializeGame, with mode twoPlayer).\<close>

definition startNewGame :: "string \<Rightarrow> GameState" where
  "startNewGame mode =
     \<lparr>Board = emptyBoard, CurrentPlayer = PLAYER_1, Mode = mode, GameOver = False,
      Winner = 0, StatusMessage = MsgNone\<rparr>"

section \<open>Board engine\<close>

text \<open>
  placePiece: \<open>for row := BOARD_ROWS - 1; row >= 0; row--\<close>. The loop counter of the
  model is \<open>row + 1\<close>, so the loop ends at \<open>0\<close>; the result is the new state and the
  returned row (\<open>-1\<close> for a full column).
\<close>

fun placePieceLoop :: "GameState \<Rightarrow> int \<Rightarrow> int \<Rightarrow> nat \<Rightarrow> error + (GameState \<times> int)" where
  "placePieceLoop g col player 0 = Inr (g, -1)"
| "placePieceLoop g col player (Suc n) =
     (case index (Board g) (int n) col of
        Inl e \<Rightarrow> Inl e
      | Inr v \<Rightarrow>
          if v = CELL_EMPTY
          then Inr (g\<lparr>Board := setCell (Board g) (int n) col player\<rparr>, int n)
          else placePieceLoop g col player n)"

definition placePiece :: "GameState \<Rightarrow> int \<Rightarrow> int \<Rightarrow> error + (GameState \<times> int)" where
  "placePiece g col player = placePieceLoop g col player (nat BOARD_ROWS)"

text \<open>
  checkDirection. Each of its two \<open>for\<close> loops walks from a neighbour of \<open>(row, col)\<close>
  while the position is inside the board and holds \<open>player\<close> (the bounds are tested
  before the cell is read, so the read cannot panic). With \<open>dRow = dCol = 0\<close> a loop
  never ends, so the loop is a partial function: \<open>None\<close> means it does not return.
  The second loop steps by \<open>(-dRow, -dCol)\<close> and starts from the count of the first.
\<close>

partial_function (option) countLoop ::
  "board \<Rightarrow> int \<Rightarrow> int \<Rightarrow> int \<Rightarrow> int \<Rightarrow> int \<Rightarrow> int \<Rightarrow> int option" where
  "countLoop b i j dRow dCol player count =
     (if 0 \<le> i \<and> i < BOARD_ROWS \<and> 0 \<le> j \<and> j < BOARD_COLS \<and> cell b i j = player
      then countLoop b (i + dRow) (j + dCol) dRow dCol player (count + 1)
      else Some count)"

definition checkDirection ::
  "GameState \<Rightarrow> int \<Rightarrow> int \<Rightarrow> int \<Rightarrow> int \<Rightarrow> int \<Rightarrow> error + int" where
  "checkDirection g row col dRow dCol player =
     (case countLoop (Board g) (row + dRow) (col + dCol) dRow dCol player 1 of
        None \<Rightarrow> Inl Diverges
      | Some count \<Rightarrow>
          (case countLoop (Board g) (row - dRow) (col - dCol) (- dRow) (- dCol) player count of
             None \<Rightarrow> Inl Diverges
           | Some count' \<Rightarrow> Inr count'))"

text \<open>checkForWin: the four directions in the order of the source.\<close>

definition checkForWin :: "GameState \<Rightarrow> int \<Rightarrow> int \<Rightarrow> error + int" where
  "checkForWin g row col =
     (case index (Board g) row col of
        Inl e \<Rightarrow> Inl e
      | Inr player \<Rightarrow>
     (case checkDirection g row col 0 1 player of
        Inl e \<Rightarrow> Inl e
      | Inr count \<Rightarrow> if count \<ge> WINNING_COUNT then Inr player else
     (case checkDirection g row col 1 0 player of
        Inl e \<Rightarrow> Inl e
      | Inr count \<Rightarrow> if count \<ge> WINNING_COUNT then Inr player else
     (case checkDirection g row col 1 1 player of
        Inl e \<Rightarrow> Inl e
      | Inr count \<Rightarrow> if count \<ge> WINNING_COUNT then Inr player else
     (case checkDirection g row col (- 1) 1 player of
        Inl e \<Rightarrow> Inl e
      | Inr count \<Rightarrow> if count \<ge> WINNING_COUNT then Inr player else
      Inr 0)))))"

text \<open>isBoardFull: the loop over the top row returns false at the first empty cell.\<close>

definition isBoardFull :: "GameState \<Rightarrow> bool" where
  "isBoardFull g \<longleftrightarrow> list_all (\<lambda>col. cell (Board g) 0 col \<noteq> CELL_EMPTY) [0..BOARD_COLS - 1]"

definition getWinnerMessage :: "int \<Rightarrow> message" where
  "getWinnerMessage winner =
     (if winner = PLAYER_1 then MsgPlayer1Wins
      else if winner = PLAYER_2 then MsgPlayer2Wins
      else if winner = PLAYER_DRAW then MsgDrawPerfect
      else MsgNone)"

section \<open>Turn controller\<close>

text \<open>
  checkGameEnd. The new side to move, \<open>PLAYER_2 + PLAYER_1 - CurrentPlayer\<close>, is computed
  in Go's 64-bit \<open>int\<close>.
\<close>

definition checkGameEnd :: "GameState \<Rightarrow> int \<Rightarrow> int \<Rightarrow> error + GameState" where
  "checkGameEnd g row col =
     (case checkForWin g row col of
        Inl e \<Rightarrow> Inl e
      | Inr winner \<Rightarrow>
          if winner > 0
          then Inr (g\<lparr>GameOver := True, Winner := winner,
                      StatusMessage := getWinnerMessage winner\<rparr>)
          else if isBoardFull g
          then Inr (g\<lparr>GameOver := True, Winner := PLAYER_DRAW, StatusMessage := MsgDraw\<rparr>)
          else Inr ((if Mode g = GAME_MODE_TWO_PLAYER \<or>
                        (Mode g = GAME_MODE_AI \<and> CurrentPlayer g = PLAYER_1)
                     then g\<lparr>CurrentPlayer := int64 (PLAYER_2 + PLAYER_1 - CurrentPlayer g)\<rparr>
                     else g)\<lparr>StatusMessage := MsgNone\<rparr>))"

section \<open>AI selector\<close>

definition isValidMove :: "GameState \<Rightarrow> int \<Rightarrow> bool" where
  "isValidMove g col \<longleftrightarrow> col \<ge> 0 \<and> col < BOARD_COLS \<and> cell (Board g) 0 col = CELL_EMPTY"

definition getValidMoves :: "GameState \<Rightarrow> int list" where
  "getValidMoves g = filter (isValidMove g) [0..BOARD_COLS - 1]"

text \<open>
  wouldWin: the first loop looks for the landing row (\<open>-1\<close> when there is none), with
  the counter \<open>r + 1\<close> as in placePiece. The probe writes \<open>player\<close> into the cell, runs
  checkForWin and writes \<open>CELL_EMPTY\<close> back; the state is threaded through so that the
  two writes stay visible in the result.
\<close>

fun wouldWinRow :: "board \<Rightarrow> int \<Rightarrow> nat \<Rightarrow> error + int" where
  "wouldWinRow b col 0 = Inr (- 1)"
| "wouldWinRow b col (Suc n) =
     (case index b (int n) col of
        Inl e \<Rightarrow> Inl e
      | Inr v \<Rightarrow> if v = CELL_EMPTY then Inr (int n) else wouldWinRow b col n)"

definition wouldWin :: "GameState \<Rightarrow> int \<Rightarrow> int \<Rightarrow> error + (GameState \<times> bool)" where
  "wouldWin g col player =
     (case wouldWinRow (Board g) col (nat BOARD_ROWS) of
        Inl e \<Rightarrow> Inl e
      | Inr row \<Rightarrow>
          if row = - 1 then Inr (g, False)
          else
            let g1 = g\<lparr>Board := setCell (Board g) row col player\<rparr> in
            (case checkForWin g1 row col of
               Inl e \<Rightarrow> Inl e
             | Inr winner \<Rightarrow>
                 Inr (g1\<lparr>Board := setCell (Board g1) row col CELL_EMPTY\<rparr>, winner = player)))"

text \<open>findWinningMove: \<open>range getValidMoves()\<close> is evaluated once, before the loop.\<close>

fun findWinningMoveLoop :: "GameState \<Rightarrow> int list \<Rightarrow> int \<Rightarrow> error + (GameState \<times> int)" where
  "findWinningMoveLoop g [] player = Inr (g, - 1)"
| "findWinningMoveLoop g (col # cols) player =
     (case wouldWin g col player of
        Inl e \<Rightarrow> Inl e
      | Inr (g', w) \<Rightarrow> if w then Inr (g', col) else findWinningMoveLoop g' cols player)"

definition findWinningMove :: "GameState \<Rightarrow> int \<Rightarrow> error + (GameState \<times> int)" where
  "findWinningMove g player = findWinningMoveLoop g (getValidMoves g) player"

text \<open>
  findRandomValidMove. \<open>rand.Intn(n)\<close> returns some value in \<open>[0, n)\<close> for \<open>n > 0\<close>; the
  model takes the random source as a number \<open>rnd\<close> and uses \<open>rnd mod n\<close>, which ranges
  over exactly these values.
\<close>

definition findRandomValidMove :: "GameState \<Rightarrow> nat \<Rightarrow> int" where
  "findRandomValidMove g rnd =
     (let moves = getValidMoves g in
      if length moves = 0 then 0 else moves ! (rnd mod length moves))"

definition getBestMove :: "GameState \<Rightarrow> nat \<Rightarrow> error + (GameState \<times> int)" where
  "getBestMove g rnd =
     (case findWinningMove g PLAYER_2 of
        Inl e \<Rightarrow> Inl e
      | Inr (g1, col) \<Rightarrow> if col \<noteq> - 1 then Inr (g1, col) else
     (case findWinningMove g1 PLAYER_1 of
        Inl e \<Rightarrow> Inl e
      | Inr (g2, col) \<Rightarrow> if col \<noteq> - 1 then Inr (g2, col) else
     (let centerCol = 3 in
      if isValidMove g2 centerCol then Inr (g2, centerCol)
      else Inr (g2, findRandomValidMove g2 rnd))))"

definition aiMakeMove :: "GameState \<Rightarrow> nat \<Rightarrow> error + GameState" where
  "aiMakeMove g rnd =
     (case getBestMove g rnd of
        Inl e \<Rightarrow> Inl e
      | Inr (g1, col) \<Rightarrow>
     (case placePiece g1 col PLAYER_2 of
        Inl e \<Rightarrow> Inl e
      | Inr (g2, row) \<Rightarrow>
          if row = - 1 then Inr g2 else
     (case checkGameEnd g2 row col of
        Inl e \<Rightarrow> Inl e
      | Inr g3 \<Rightarrow>
          if \<not> GameOver g3
          then Inr (g3\<lparr>CurrentPlayer := PLAYER_1, StatusMessage := MsgNone\<rparr>)
          else Inr g3)))"

section \<open>Request handlers\<close>

text \<open>
  The handlers are modelled for POST requests, as functions of the game state and of
  what the request parsing hands to the core; what they write to the response is left
  out, except the \<open>Success\<close> flag of the JSON handlers. A panic ends the request; in
  every handler the first thing that can panic is a board read, before any assignment.

  handleMove: the argument is the result of \<open>strconv.Atoi\<close> on the form value,
  \<open>None\<close> when it returns an error. \<open>time.Sleep\<close> has no effect on the state.
\<close>

definition handleMove :: "GameState \<Rightarrow> int option \<Rightarrow> nat \<Rightarrow> error + GameState" where
  "handleMove g colInput rnd =
     (case colInput of
        None \<Rightarrow> Inr (g\<lparr>StatusMessage := MsgInvalidColumn\<rparr>)
      | Some col \<Rightarrow>
          if col < 0 \<or> col \<ge> BOARD_COLS then Inr (g\<lparr>StatusMessage := MsgInvalidColumn\<rparr>)
          else
     (case placePiece g col (CurrentPlayer g) of
        Inl e \<Rightarrow> Inl e
      | Inr (g1, row) \<Rightarrow>
          if row = - 1 then Inr (g1\<lparr>StatusMessage := MsgColumnFull\<rparr>) else
     (case checkGameEnd g1 row col of
        Inl e \<Rightarrow> Inl e
      | Inr g2 \<Rightarrow>
          if \<not> GameOver g2 \<and> Mode g2 = GAME_MODE_AI \<and> CurrentPlayer g2 = PLAYER_2
          then aiMakeMove g2 rnd
          else Inr g2)))"

text \<open>
  handleMoveAPI: the argument is \<open>req.Col\<close> as the JSON decoder left it (its error is
  ignored). The result is the state and the \<open>Success\<close> flag of the response.
\<close>

definition handleMoveAPI :: "GameState \<Rightarrow> int \<Rightarrow> error + (GameState \<times> bool)" where
  "handleMoveAPI g col =
     (case placePiece g col (CurrentPlayer g) of
        Inl e \<Rightarrow> Inl e
      | Inr (g1, row) \<Rightarrow>
          if row = - 1 then Inr (g1, False) else
     (case checkGameEnd g1 row col of
        Inl e \<Rightarrow> Inl e
      | Inr g2 \<Rightarrow> Inr (g2, True)))"

text \<open>aiMoveAPI: \<open>False\<close> stands for the HTTP error sent when placePiece returns -1.\<close>

definition aiMoveAPI :: "GameState \<Rightarrow> nat \<Rightarrow> error + (GameState \<times> bool)" where
  "aiMoveAPI g rnd =
     (case getBestMove g rnd of
        Inl e \<Rightarrow> Inl e
      | Inr (g1, col) \<Rightarrow>
     (case placePiece g1 col PLAYER_2 of
        Inl e \<Rightarrow> Inl e
      | Inr (g2, row) \<Rightarrow>
          if row = - 1 then Inr (g2, False) else
     (case checkGameEnd g2 row col of
        Inl e \<Rightarrow> Inl e
      | Inr g3 \<Rightarrow> Inr (g3, True))))"

text \<open>A sequence of form posts to handleMove (random source 0), stopping at a panic.\<close>

fun playMoves :: "GameState \<Rightarrow> int list \<Rightarrow> error + GameState" where
  "playMoves g [] = Inr g"
| "playMoves g (col # cols) =
     (case handleMove g (Some col) 0 of Inl e \<Rightarrow> Inl e | Inr g' \<Rightarrow> playMoves g' cols)"

text \<open>
  The states the server can be in: the initial one, and any state one of the handlers
  produces from such a state. handleModeChange and newGameAPI pass the request's mode
  string to startNewGame as it is; handleNewGame passes it, or the current mode when it
  is empty.
\<close>

inductive reachable :: "GameState \<Rightarrow> bool" where
  initializeGame: "reachable (startNewGame GAME_MODE_TWO_PLAYER)"
| newGame: "reachable g \<Longrightarrow> reachable (startNewGame mode)"
| move: "reachable g \<Longrightarrow> handleMove g colInput rnd = Inr g' \<Longrightarrow> reachable g'"
| moveAPI: "reachable g \<Longrightarrow> handleMoveAPI g col = Inr (g', ok) \<Longrightarrow> reachable g'"
| aiAPI: "reachable g \<Longrightarrow> aiMoveAPI g rnd = Inr (g', ok) \<Longrightarrow> reachable g'"

section \<open>Properties the specification names\<close>

text \<open>\<open>matches b p i j\<close>: the position is on the board and holds \<open>p\<close>.\<close>

definition matches :: "board \<Rightarrow> int \<Rightarrow> int \<Rightarrow> int \<Rightarrow> bool" where
  "matches b p i j \<longleftrightarrow> inBoard i j \<and> cell b i j = p"

text \<open>
  From the specification's words, to be compared with checkForWin: a contiguous line
  of \<open>n\<close> cells in the direction \<open>(dRow, dCol)\<close>, all on the board and all holding \<open>p\<close>,
  whose cell number \<open>k\<close> (counted from 0) is \<open>(row, col)\<close>; and a cell that lies on such
  a line of at least 4 cells in one of the four orientations.
\<close>

definition lineOf :: "board \<Rightarrow> int \<Rightarrow> int \<Rightarrow> int \<Rightarrow> int \<Rightarrow> int \<Rightarrow> nat \<Rightarrow> nat \<Rightarrow> bool" where
  "lineOf b p row col dRow dCol n k \<longleftrightarrow>
     k < n \<and> (\<forall>m \<in> {..<n}. matches b p (row + (int m - int k) * dRow) (col + (int m - int k) * dCol))"

definition onWinningLine :: "board \<Rightarrow> int \<Rightarrow> int \<Rightarrow> int \<Rightarrow> bool" where
  "onWinningLine b p row col \<longleftrightarrow>
     (\<exists>(dRow, dCol) \<in> {(0, 1), (1, 0), (1, 1), (- 1, 1)}.
        \<exists>n k. 4 \<le> n \<and> lineOf b p row col dRow dCol n k)"

text \<open>
  The gravity invariant in the specification's words: in every column the occupied
  cells are a contiguous run from the bottom row (index 5) upward, that is, exactly
  the lowest \<open>h\<close> cells for some height \<open>h\<close>.
\<close>

definition gravity :: "board \<Rightarrow> bool" where
  "gravity b \<longleftrightarrow>
     (\<forall>col \<in> {0..<BOARD_COLS}. \<exists>h \<in> {0..BOARD_ROWS}. \<forall>row \<in> {0..<BOARD_ROWS}.
        (cell b row col \<noteq> CELL_EMPTY) = (BOARD_ROWS - h \<le> row))"

text \<open>
  The outcome the probe of wouldWin is meant to predict: the real placement of a piece
  of \<open>player\<close> in the column succeeds and checkForWin at the landing cell reports
  \<open>player\<close>.
\<close>

definition winsAt :: "GameState \<Rightarrow> int \<Rightarrow> int \<Rightarrow> bool" where
  "winsAt g col player \<longleftrightarrow>
     (case placePiece g col player of
        Inl e \<Rightarrow> False
      | Inr (g', row) \<Rightarrow> row \<noteq> - 1 \<and> checkForWin g' row col = Inr player)"

text \<open>
  The column getBestMove computes, written without the state threading: the first
  valid column that wins for player 2, else the first that wins for player 1, else
  the centre, else the random choice.
\<close>

definition bestCol :: "GameState \<Rightarrow> nat \<Rightarrow> int" where
  "bestCol g rnd =
     (case find (\<lambda>c. winsAt g c PLAYER_2) (getValidMoves g) of
        Some c \<Rightarrow> c
      | None \<Rightarrow>
     (case find (\<lambda>c. winsAt g c PLAYER_1) (getValidMoves g) of
        Some c \<Rightarrow> c
      | None \<Rightarrow> if isValidMove g 3 then 3 else findRandomValidMove g rnd))"

section \<open>States used as concrete inputs\<close>

text \<open>
  A board with a diagonal of four pieces of player 1 from the corner cell (5, 0) to
  (2, 3), and a vertical four of player 1 in column 6 that ends in the top row.
\<close>

definition boundaryLinesGame :: GameState where
  "boundaryLinesGame =
     \<lparr>Board = [[0, 0, 0, 0, 0, 0, 1],
               [0, 0, 0, 0, 0, 0, 1],
               [0, 0, 0, 1, 0, 0, 1],
               [0, 0, 1, 2, 0, 0, 1],
               [0, 1, 2, 2, 0, 0, 2],
               [1, 2, 2, 1, 0, 0, 2]],
      CurrentPlayer = PLAYER_2, Mode = GAME_MODE_TWO_PLAYER, GameOver = False,
      Winner = 0, StatusMessage = MsgNone\<rparr>"

text \<open>
  Player 2 has three pieces stacked in column 2 and player 1 three stacked in column 5;
  player 2 is to move.
\<close>

definition priorityGame :: GameState where
  "priorityGame =
     \<lparr>Board = [[0, 0, 0, 0, 0, 0, 0],
               [0, 0, 0, 0, 0, 0, 0],
               [0, 0, 0, 0, 0, 0, 0],
               [0, 0, 2, 0, 0, 1, 0],
               [0, 0, 2, 0, 0, 1, 0],
               [1, 0, 2, 0, 0, 1, 0]],
      CurrentPlayer = PLAYER_2, Mode = GAME_MODE_AI, GameOver = False,
      Winner = 0, StatusMessage = MsgNone\<rparr>"

text \<open>A completely filled board without any line of four.\<close>

definition fullGame :: GameState where
  "fullGame =
     \<lparr>Board = [[1, 1, 2, 2, 1, 1, 2],
               [2, 2, 1, 1, 2, 2, 1],
               [1, 1, 2, 2, 1, 1, 2],
               [2, 2, 1, 1, 2, 2, 1],
               [1, 1, 2, 2, 1, 1, 2],
               [2, 2, 1, 1, 2, 2, 1]],
      CurrentPlayer = PLAYER_2, Mode = GAME_MODE_AI, GameOver = False,
      Winner = 0, StatusMessage = MsgNone\<rparr>"

text \<open>
  A game in ai mode: the board after the human's first piece in column 3, before and
  after checkGameEnd has passed the turn to player 2, and the board after the
  automated side has answered in column 3 with player 2 still recorded as the side
  to move.
\<close>

definition aiHumanPlaced :: GameState where
  "aiHumanPlaced =
     \<lparr>Board = [[0, 0, 0, 0, 0, 0, 0],
               [0, 0, 0, 0, 0, 0, 0],
               [0, 0, 0, 0, 0, 0, 0],
               [0, 0, 0, 0, 0, 0, 0],
               [0, 0, 0, 0, 0, 0, 0],
               [0, 0, 0, 1, 0, 0, 0]],
      CurrentPlayer = PLAYER_1, Mode = GAME_MODE_AI, GameOver = False,
      Winner = 0, StatusMessage = MsgNone\<rparr>"

definition aiHumanMoved :: GameState where
  "aiHumanMoved =
     \<lparr>Board = [[0, 0, 0, 0, 0, 0, 0],
               [0, 0, 0, 0, 0, 0, 0],
               [0, 0, 0, 0, 0, 0, 0],
               [0, 0, 0, 0, 0, 0, 0],
               [0, 0, 0, 0, 0, 0, 0],
               [0, 0, 0, 1, 0, 0, 0]],
      CurrentPlayer = PLAYER_2, Mode = GAME_MODE_AI, GameOver = False,
      Winner = 0, StatusMessage = MsgNone\<rparr>"

definition aiReplied :: GameState where
  "aiReplied =
     \<lparr>Board = [[0, 0, 0, 0, 0, 0, 0],
               [0, 0, 0, 0, 0, 0, 0],
               [0, 0, 0, 0, 0, 0, 0],
               [0, 0, 0, 0, 0, 0, 0],
               [0, 0, 0, 2, 0, 0, 0],
               [0, 0, 0, 1, 0, 0, 0]],
      CurrentPlayer = PLAYER_2, Mode = GAME_MODE_AI, GameOver = False,
      Winner = 0, StatusMessage = MsgNone\<rparr>"

text \<open>
  The two-player game after player 1 has played column 3 four times and player 2
  column 4 three times; the same game after one more piece in column 0; and after yet
  another piece, in column 4.
\<close>

definition wonGame :: GameState where
  "wonGame =
     \<lparr>Board = [[0, 0, 0, 0, 0, 0, 0],
               [0, 0, 0, 0, 0, 0, 0],
               [0, 0, 0, 1, 0, 0, 0],
               [0, 0, 0, 1, 2, 0, 0],
               [0, 0, 0, 1, 2, 0, 0],
               [0, 0, 0, 1, 2, 0, 0]],
      CurrentPlayer = PLAYER_1, Mode = GAME_MODE_TWO_PLAYER, GameOver = True,
      Winner = PLAYER_1, StatusMessage = MsgPlayer1Wins\<rparr>"

definition wonGameAfter :: GameState where
  "wonGameAfter =
     \<lparr>Board = [[0, 0, 0, 0, 0, 0, 0],
               [0, 0, 0, 0, 0, 0, 0],
               [0, 0, 0, 1, 0, 0, 0],
               [0, 0, 0, 1, 2, 0, 0],
               [0, 0, 0, 1, 2, 0, 0],
               [1, 0, 0, 1, 2, 0, 0]],
      CurrentPlayer = PLAYER_2, Mode = GAME_MODE_TWO_PLAYER, GameOver = True,
      Winner = PLAYER_1, StatusMessage = MsgNone\<rparr>"

definition wonGameTwice :: GameState where
  "wonGameTwice =
     \<lparr>Board = [[0, 0, 0, 0, 0, 0, 0],
               [0, 0, 0, 0, 0, 0, 0],
               [0, 0, 0, 1, 2, 0, 0],
               [0, 0, 0, 1, 2, 0, 0],
               [0, 0, 0, 1, 2, 0, 0],
               [1, 0, 0, 1, 2, 0, 0]],
      CurrentPlayer = PLAYER_2, Mode = GAME_MODE_TWO_PLAYER, GameOver = True,
      Winner = PLAYER_2, StatusMessage = MsgPlayer2Wins\<rparr>"

section \<open>Basic facts about boards\<close>

lemma wf_board_row: "wf_board b \<Longrightarrow> inBoard i j \<Longrightarrow> nat i < length b \<and> nat j < length (b ! nat i)"
  by (auto simp: wf_board_def inBoard_def)

lemma wf_setCell: "wf_board b \<Longrightarrow> inBoard i j \<Longrightarrow> wf_board (setCell b i j v)"
  unfolding wf_board_def setCell_def inBoard_def
  by (auto dest!: set_update_subset_insert [THEN subsetD])

lemma cell_setCell:
  assumes "wf_board b" "inBoard i j" "inBoard i' j'"
  shows "cell (setCell b i j v) i' j' = (if i' = i \<and> j' = j then v else cell b i' j')"
proof -
  from assms have "nat i < length b" "nat j < length (b ! nat i)" "nat i' < length b"
    by (auto dest: wf_board_row)
  moreover from assms have "nat i' = nat i \<longleftrightarrow> i' = i" "nat j' = nat j \<longleftrightarrow> j' = j"
    by (auto simp: inBoard_def)
  ultimately show ?thesis
    by (auto simp: cell_def setCell_def nth_list_update)
qed

lemma setCell_same: "wf_board b \<Longrightarrow> inBoard i j \<Longrightarrow> setCell b i j (cell b i j) = b"
  by (simp add: setCell_def cell_def)

lemma setCell_setCell: "setCell (setCell b i j v) i j w = setCell b i j w"
  by (cases "nat i < length b") (simp_all add: setCell_def list_update_beyond)

lemma wf_emptyBoard: "wf_board emptyBoard"
  by (simp add: wf_board_def emptyBoard_def)

lemma cell_emptyBoard: "inBoard i j \<Longrightarrow> cell emptyBoard i j = 0"
proof -
  assume "inBoard i j"
  then have "nat i < 6" "nat j < 7" by (auto simp: inBoard_def)
  then show ?thesis by (simp add: cell_def emptyBoard_def)
qed

lemmas eval_simps = index_def inBoard_def cell_def setCell_def checkForWin_def checkDirection_def
  countLoop.simps placePiece_def isValidMove_def winsAt_def eval_nat_numeral

lemma upto_cols: "[0..6] = [0, 1, 2, 3, 4, 5, 6 :: int]"
  by (simp add: upto_rec1)

lemmas handler_simps = upto_cols handleMove_def handleMoveAPI_def aiMoveAPI_def aiMakeMove_def
  getBestMove_def findWinningMove_def getValidMoves_def wouldWin_def findRandomValidMove_def
  checkGameEnd_def int64_def isBoardFull_def getWinnerMessage_def startNewGame_def emptyBoard_def
  Let_def

section \<open>placePiece\<close>

lemma placePieceLoop_found:
  assumes "0 \<le> col" "col < BOARD_COLS" "int n \<le> BOARD_ROWS"
    and "0 \<le> r" "r < int n" "cell (Board g) r col = CELL_EMPTY"
    and "\<forall>r'. r < r' \<and> r' < int n \<longrightarrow> cell (Board g) r' col \<noteq> CELL_EMPTY"
  shows "placePieceLoop g col player n = Inr (g\<lparr>Board := setCell (Board g) r col player\<rparr>, r)"
  using assms
proof (induction n)
  case 0
  then show ?case by simp
next
  case (Suc n)
  have inb: "inBoard (int n) col"
    using Suc.prems by (simp add: inBoard_def)
  show ?case
  proof (cases "r = int n")
    case True
    with Suc.prems inb show ?thesis by (simp add: index_def)
  next
    case False
    with Suc.prems have "r < int n" "cell (Board g) (int n) col \<noteq> CELL_EMPTY" by auto
    with Suc inb show ?thesis by (simp add: index_def)
  qed
qed

lemma placePieceLoop_full:
  assumes "0 \<le> col" "col < BOARD_COLS" "int n \<le> BOARD_ROWS"
    and "\<forall>r'. 0 \<le> r' \<and> r' < int n \<longrightarrow> cell (Board g) r' col \<noteq> CELL_EMPTY"
  shows "placePieceLoop g col player n = Inr (g, -1)"
  using assms
  by (induction n) (simp_all add: index_def inBoard_def)

lemma placePieceLoop_range:
  "\<not> (0 \<le> col \<and> col < BOARD_COLS) \<Longrightarrow> placePieceLoop g col player (Suc n) = Inl IndexOutOfRange"
  by (auto simp: index_def inBoard_def)

text \<open>
  Claim C5. For a column in [0,7) and any side: when the column has an empty cell, let
  \<open>r\<close> be the lowest one (the largest row index holding 0: the cell is empty and every
  row below it, \<open>r < r' < 6\<close>, is occupied). Then placePiece returns \<open>r\<close>, the new
  state differs from the old one only in the board, the cell \<open>(r, col)\<close> holds the side
  and every other cell of the 6x7 array is as before. When all 6 cells of the column
  are occupied, placePiece returns -1 and the state is the one it was given.
\<close>

theorem placePiece_lowest_empty_or_full:
  assumes "wf_board (Board g)" and "0 \<le> col" and "col < BOARD_COLS"
  shows "(\<forall>r. 0 \<le> r \<and> r < BOARD_ROWS \<and> cell (Board g) r col = CELL_EMPTY \<and>
              (\<forall>r'. r < r' \<and> r' < BOARD_ROWS \<longrightarrow> cell (Board g) r' col \<noteq> CELL_EMPTY) \<longrightarrow>
            (\<exists>g'. placePiece g col player = Inr (g', r) \<and>
                  g' = g\<lparr>Board := Board g'\<rparr> \<and> wf_board (Board g') \<and>
                  (\<forall>i j. inBoard i j \<longrightarrow>
                     cell (Board g') i j = (if i = r \<and> j = col then player else cell (Board g) i j))))
       \<and> ((\<forall>r. 0 \<le> r \<and> r < BOARD_ROWS \<longrightarrow> cell (Board g) r col \<noteq> CELL_EMPTY) \<longrightarrow>
            placePiece g col player = Inr (g, -1))"
proof (intro conjI allI impI)
  fix r
  assume r: "0 \<le> r \<and> r < BOARD_ROWS \<and> cell (Board g) r col = CELL_EMPTY \<and>
              (\<forall>r'. r < r' \<and> r' < BOARD_ROWS \<longrightarrow> cell (Board g) r' col \<noteq> CELL_EMPTY)"
  let ?g' = "g\<lparr>Board := setCell (Board g) r col player\<rparr>"
  have inb: "inBoard r col" using r assms by (simp add: inBoard_def)
  have "placePiece g col player = Inr (?g', r)"
    unfolding placePiece_def using assms r
    by (intro placePieceLoop_found) auto
  moreover have "wf_board (Board ?g')"
    using assms inb by (simp add: wf_setCell)
  moreover have "\<forall>i j. inBoard i j \<longrightarrow>
      cell (Board ?g') i j = (if i = r \<and> j = col then player else cell (Board g) i j)"
    using assms inb by (simp add: cell_setCell)
  ultimately show "\<exists>g'. placePiece g col player = Inr (g', r) \<and>
                  g' = g\<lparr>Board := Board g'\<rparr> \<and> wf_board (Board g') \<and>
                  (\<forall>i j. inBoard i j \<longrightarrow>
                     cell (Board g') i j = (if i = r \<and> j = col then player else cell (Board g) i j))"
    by (intro exI [of _ ?g']) simp
next
  assume "\<forall>r. 0 \<le> r \<and> r < BOARD_ROWS \<longrightarrow> cell (Board g) r col \<noteq> CELL_EMPTY"
  then show "placePiece g col player = Inr (g, -1)"
    unfolding placePiece_def using assms
    by (intro placePieceLoop_full) auto
qed

theorem placePiece_lowest_empty_or_full_witness:
  "wf_board (Board (startNewGame GAME_MODE_TWO_PLAYER)) \<and>
   (\<exists>g'. placePiece (startNewGame GAME_MODE_TWO_PLAYER) 3 PLAYER_1 = Inr (g', 5) \<and>
         cell (Board g') 5 3 = PLAYER_1 \<and> cell (Board g') 4 3 = CELL_EMPTY)"
proof -
  let ?g = "startNewGame GAME_MODE_TWO_PLAYER"
  have wf: "wf_board (Board ?g)" by (simp add: startNewGame_def wf_emptyBoard)
  have e: "cell (Board ?g) 5 3 = CELL_EMPTY" "cell (Board ?g) 4 3 = CELL_EMPTY"
    by (simp_all add: startNewGame_def cell_emptyBoard inBoard_def)
  have low: "\<forall>r'. 5 < r' \<and> r' < BOARD_ROWS \<longrightarrow> cell (Board ?g) r' 3 \<noteq> CELL_EMPTY" by simp
  from placePiece_lowest_empty_or_full [of ?g 3 PLAYER_1, THEN conjunct1, rule_format, of 5] wf e low
  obtain g' where g': "placePiece ?g 3 PLAYER_1 = Inr (g', 5)"
     "\<forall>i j. inBoard i j \<longrightarrow> cell (Board g') i j = (if i = 5 \<and> j = 3 then PLAYER_1 else cell (Board ?g) i j)"
    by auto
  from g'(2) e have "cell (Board g') 5 3 = PLAYER_1" "cell (Board g') 4 3 = CELL_EMPTY"
    by (simp_all add: inBoard_def)
  with wf g'(1) show ?thesis by blast
qed

section \<open>checkDirection and checkForWin\<close>

lemma countLoop_stop: "\<not> matches b p i j \<Longrightarrow> countLoop b i j dRow dCol p c = Some c"
  by (subst countLoop.simps) (auto simp: matches_def inBoard_def)

lemma countLoop_step:
  "matches b p i j \<Longrightarrow>
   countLoop b i j dRow dCol p c = countLoop b (i + dRow) (j + dCol) dRow dCol p (c + 1)"
  by (subst countLoop.simps) (auto simp: matches_def inBoard_def)

lemma countLoop_exact:
  assumes "\<forall>m<n. matches b p (i + int m * dRow) (j + int m * dCol)"
    and "\<not> matches b p (i + int n * dRow) (j + int n * dCol)"
  shows "countLoop b i j dRow dCol p c = Some (c + int n)"
  using assms
proof (induction n arbitrary: i j c)
  case 0
  then show ?case by (simp add: countLoop_stop)
next
  case (Suc n)
  from Suc.prems(1) have m0: "matches b p i j" by force
  have "\<forall>m<n. matches b p (i + dRow + int m * dRow) (j + dCol + int m * dCol)"
  proof (intro allI impI)
    fix m assume "m < n"
    with Suc.prems(1) have "matches b p (i + int (Suc m) * dRow) (j + int (Suc m) * dCol)"
      by blast
    then show "matches b p (i + dRow + int m * dRow) (j + dCol + int m * dCol)"
      by (simp add: algebra_simps)
  qed
  moreover from Suc.prems(2)
  have "\<not> matches b p (i + dRow + int n * dRow) (j + dCol + int n * dCol)"
    by (simp add: algebra_simps)
  ultimately have "countLoop b (i + dRow) (j + dCol) dRow dCol p (c + 1) = Some (c + 1 + int n)"
    by (rule Suc.IH)
  with m0 show ?case by (simp add: countLoop_step)
qed

lemma leaves_board:
  assumes "dRow \<noteq> 0 \<or> dCol \<noteq> 0"
  shows "\<exists>n. \<not> inBoard (i + int n * dRow) (j + int n * dCol)"
proof -
  have pos: "\<exists>n. \<not> (x + int n * d < u)" if "0 < d" for x d u :: int
  proof
    let ?k = "int (nat (u - x))"
    have "?k * 1 \<le> ?k * d"
      using that by (intro mult_left_mono) auto
    moreover have "u - x \<le> ?k" by simp
    ultimately show "\<not> (x + ?k * d < u)" by linarith
  qed
  have neg: "\<exists>n. \<not> (0 \<le> x + int n * d)" if "d < 0" for x d :: int
  proof
    let ?k = "int (nat (x + 1))"
    have "?k * d \<le> ?k * (- 1)"
      using that by (intro mult_left_mono) auto
    moreover have "x + 1 \<le> ?k" by simp
    ultimately show "\<not> (0 \<le> x + ?k * d)" by linarith
  qed
  from assms consider "0 < dRow" | "dRow < 0" | "0 < dCol" | "dCol < 0" by linarith
  then show ?thesis
  proof cases
    case 1 from pos [OF this, of i 6] show ?thesis by (auto simp: inBoard_def)
  next
    case 2 from neg [OF this, of i] show ?thesis by (auto simp: inBoard_def)
  next
    case 3 from pos [OF this, of j 7] show ?thesis by (auto simp: inBoard_def)
  next
    case 4 from neg [OF this, of j] show ?thesis by (auto simp: inBoard_def)
  qed
qed

lemma countLoop_total:
  assumes "dRow \<noteq> 0 \<or> dCol \<noteq> 0"
  shows "\<exists>n. countLoop b i j dRow dCol p c = Some (c + int n) \<and>
             (\<forall>m<n. matches b p (i + int m * dRow) (j + int m * dCol)) \<and>
             \<not> matches b p (i + int n * dRow) (j + int n * dCol)"
proof -
  from leaves_board [OF assms, of i j]
  have "\<exists>n. \<not> matches b p (i + int n * dRow) (j + int n * dCol)"
    by (auto simp: matches_def)
  then obtain n where n: "\<not> matches b p (i + int n * dRow) (j + int n * dCol)"
    "\<forall>m<n. matches b p (i + int m * dRow) (j + int m * dCol)"
    by (auto simp: exists_least_iff [of "\<lambda>n. \<not> matches b p (i + int n * dRow) (j + int n * dCol)"])
  with countLoop_exact [of n b p i dRow j dCol c] show ?thesis by blast
qed

lemma checkDirection_total:
  assumes "dRow \<noteq> 0 \<or> dCol \<noteq> 0"
  shows "\<exists>a b. checkDirection g row col dRow dCol p = Inr (1 + int a + int b) \<and>
     (\<forall>m<a. matches (Board g) p (row + (int m + 1) * dRow) (col + (int m + 1) * dCol)) \<and>
     \<not> matches (Board g) p (row + (int a + 1) * dRow) (col + (int a + 1) * dCol) \<and>
     (\<forall>m<b. matches (Board g) p (row - (int m + 1) * dRow) (col - (int m + 1) * dCol)) \<and>
     \<not> matches (Board g) p (row - (int b + 1) * dRow) (col - (int b + 1) * dCol)"
proof -
  from countLoop_total [OF assms, of "Board g" "row + dRow" "col + dCol" p 1]
  obtain a where a: "countLoop (Board g) (row + dRow) (col + dCol) dRow dCol p 1 = Some (1 + int a)"
    "\<forall>m<a. matches (Board g) p (row + dRow + int m * dRow) (col + dCol + int m * dCol)"
    "\<not> matches (Board g) p (row + dRow + int a * dRow) (col + dCol + int a * dCol)"
    by blast
  from assms have "- dRow \<noteq> 0 \<or> - dCol \<noteq> 0" by simp
  from countLoop_total [OF this, of "Board g" "row - dRow" "col - dCol" p "1 + int a"]
  obtain b where b:
    "countLoop (Board g) (row - dRow) (col - dCol) (- dRow) (- dCol) p (1 + int a) = Some (1 + int a + int b)"
    "\<forall>m<b. matches (Board g) p (row - dRow + int m * (- dRow)) (col - dCol + int m * (- dCol))"
    "\<not> matches (Board g) p (row - dRow + int b * (- dRow)) (col - dCol + int b * (- dCol))"
    by blast
  have fw: "row + dRow + int m * dRow = row + (int m + 1) * dRow"
           "col + dCol + int m * dCol = col + (int m + 1) * dCol"
           "row - dRow + int m * (- dRow) = row - (int m + 1) * dRow"
           "col - dCol + int m * (- dCol) = col - (int m + 1) * dCol" for m
    by (simp_all add: algebra_simps)
  from a b show ?thesis
    unfolding fw checkDirection_def by (intro exI [of _ a] exI [of _ b]) simp
qed

lemma count_ge_iff_line:
  assumes self: "matches b p row col"
    and fwd: "\<forall>m<a. matches b p (row + (int m + 1) * dRow) (col + (int m + 1) * dCol)"
    and fwd_end: "\<not> matches b p (row + (int a + 1) * dRow) (col + (int a + 1) * dCol)"
    and bwd: "\<forall>m<c. matches b p (row - (int m + 1) * dRow) (col - (int m + 1) * dCol)"
    and bwd_end: "\<not> matches b p (row - (int c + 1) * dRow) (col - (int c + 1) * dCol)"
  shows "(\<exists>n k. N \<le> n \<and> lineOf b p row col dRow dCol n k) \<longleftrightarrow> N \<le> 1 + a + c"
proof
  assume "\<exists>n k. N \<le> n \<and> lineOf b p row col dRow dCol n k"
  then obtain n k where n: "N \<le> n" "k < n"
    and line: "\<forall>m<n. matches b p (row + (int m - int k) * dRow) (col + (int m - int k) * dCol)"
    by (auto simp: lineOf_def)
  have "n - 1 - k \<le> a"
  proof (rule ccontr)
    assume "\<not> n - 1 - k \<le> a"
    then have "k + a + 1 < n" by simp
    with line have "matches b p (row + (int (k + a + 1) - int k) * dRow) (col + (int (k + a + 1) - int k) * dCol)"
      by blast
    moreover have "int (k + a + 1) - int k = int a + 1" by simp
    ultimately show False using fwd_end by (simp add: algebra_simps)
  qed
  moreover have "k \<le> c"
  proof (rule ccontr)
    assume "\<not> k \<le> c"
    then have lt: "c < k" by simp
    with n have "k - c - 1 < n" by simp
    with line have "matches b p (row + (int (k - c - 1) - int k) * dRow) (col + (int (k - c - 1) - int k) * dCol)"
      by blast
    moreover from lt have "int (k - c - 1) - int k = - (int c + 1)" by simp
    ultimately show False using bwd_end by (simp add: algebra_simps)
  qed
  ultimately show "N \<le> 1 + a + c" using n by simp
next
  assume N: "N \<le> 1 + a + c"
  have "lineOf b p row col dRow dCol (1 + a + c) c"
    unfolding lineOf_def
  proof (intro conjI ballI)
    show "c < 1 + a + c" by simp
  next
    fix m assume "m \<in> {..<1 + a + c}"
    then have m: "m < 1 + a + c" by simp
    consider "m = c" | "m < c" | "c < m" by linarith
    then show "matches b p (row + (int m - int c) * dRow) (col + (int m - int c) * dCol)"
    proof cases
      case 1
      with self show ?thesis by simp
    next
      case 2
      then have "c - m - 1 < c" by simp
      with bwd have "matches b p (row - (int (c - m - 1) + 1) * dRow) (col - (int (c - m - 1) + 1) * dCol)"
        by blast
      moreover from 2 have "int (c - m - 1) + 1 = int c - int m" by simp
      ultimately show ?thesis by (simp add: algebra_simps)
    next
      case 3
      with m have "m - c - 1 < a" by simp
      with fwd have "matches b p (row + (int (m - c - 1) + 1) * dRow) (col + (int (m - c - 1) + 1) * dCol)"
        by blast
      moreover from 3 have "int (m - c - 1) + 1 = int m - int c" by simp
      ultimately show ?thesis by (simp add: algebra_simps)
    qed
  qed
  with N show "\<exists>n k. N \<le> n \<and> lineOf b p row col dRow dCol n k" by blast
qed

lemma checkDirection_line:
  assumes "dRow \<noteq> 0 \<or> dCol \<noteq> 0" and "matches (Board g) p row col"
  shows "\<exists>count. checkDirection g row col dRow dCol p = Inr count \<and>
           (WINNING_COUNT \<le> count \<longleftrightarrow> (\<exists>n k. 4 \<le> n \<and> lineOf (Board g) p row col dRow dCol n k))"
proof -
  from checkDirection_total [OF assms(1), of g row col p]
  obtain a c where ac: "checkDirection g row col dRow dCol p = Inr (1 + int a + int c)"
     "\<forall>m<a. matches (Board g) p (row + (int m + 1) * dRow) (col + (int m + 1) * dCol)"
     "\<not> matches (Board g) p (row + (int a + 1) * dRow) (col + (int a + 1) * dCol)"
     "\<forall>m<c. matches (Board g) p (row - (int m + 1) * dRow) (col - (int m + 1) * dCol)"
     "\<not> matches (Board g) p (row - (int c + 1) * dRow) (col - (int c + 1) * dCol)"
    by blast
  from count_ge_iff_line [OF assms(2) ac(2-5), of 4]
  have "(\<exists>n k. 4 \<le> n \<and> lineOf (Board g) p row col dRow dCol n k) \<longleftrightarrow> 4 \<le> 1 + a + c" .
  moreover have "(4::int) \<le> 1 + int a + int c \<longleftrightarrow> 4 \<le> 1 + a + c" by linarith
  ultimately show ?thesis using ac(1) by simp
qed

lemma checkForWin_eq:
  assumes "inBoard row col"
  shows "checkForWin g row col =
     Inr (if onWinningLine (Board g) (cell (Board g) row col) row col
          then cell (Board g) row col else 0)"
proof -
  let ?p = "cell (Board g) row col"
  have self: "matches (Board g) ?p row col" using assms by (simp add: matches_def)
  obtain c1 where c1: "checkDirection g row col 0 1 ?p = Inr c1"
    "4 \<le> c1 \<longleftrightarrow> (\<exists>n k. 4 \<le> n \<and> lineOf (Board g) ?p row col 0 1 n k)"
    using checkDirection_line [OF _ self, of 0 1] by auto
  obtain c2 where c2: "checkDirection g row col 1 0 ?p = Inr c2"
    "4 \<le> c2 \<longleftrightarrow> (\<exists>n k. 4 \<le> n \<and> lineOf (Board g) ?p row col 1 0 n k)"
    using checkDirection_line [OF _ self, of 1 0] by auto
  obtain c3 where c3: "checkDirection g row col 1 1 ?p = Inr c3"
    "4 \<le> c3 \<longleftrightarrow> (\<exists>n k. 4 \<le> n \<and> lineOf (Board g) ?p row col 1 1 n k)"
    using checkDirection_line [OF _ self, of 1 1] by auto
  obtain c4 where c4: "checkDirection g row col (- 1) 1 ?p = Inr c4"
    "4 \<le> c4 \<longleftrightarrow> (\<exists>n k. 4 \<le> n \<and> lineOf (Board g) ?p row col (- 1) 1 n k)"
    using checkDirection_line [OF _ self, of "- 1" 1] by auto
  have "onWinningLine (Board g) ?p row col \<longleftrightarrow> 4 \<le> c1 \<or> 4 \<le> c2 \<or> 4 \<le> c3 \<or> 4 \<le> c4"
    unfolding onWinningLine_def c1(2) c2(2) c3(2) c4(2) by simp
  then show ?thesis
    using assms c1(1) c2(1) c3(1) c4(1) by (simp add: checkForWin_def index_def)
qed

text \<open>
  Claim C4. For a cell \<open>(row, col)\<close> of the board occupied by side \<open>p\<close>, checkForWin
  returns \<open>p\<close> exactly when the cell lies on a contiguous line of at least 4 cells, all
  holding \<open>p\<close>, in one of the four orientations (horizontal, vertical, the two
  diagonals); otherwise it returns 0. The board is arbitrary, so lines that touch the
  border (a vertical four ending in the top row, a diagonal from a corner) are covered.
\<close>

theorem checkForWin_iff_line_of_four:
  assumes "inBoard row col" and "cell (Board g) row col = p" and "p \<noteq> CELL_EMPTY"
  shows "(checkForWin g row col = Inr p \<longleftrightarrow> onWinningLine (Board g) p row col) \<and>
         (\<not> onWinningLine (Board g) p row col \<longrightarrow> checkForWin g row col = Inr 0)"
  using assms by (auto simp: checkForWin_eq)

theorem checkForWin_iff_line_of_four_witness:
  "inBoard 5 0 \<and> cell (Board boundaryLinesGame) 5 0 = PLAYER_1 \<and>
   checkForWin boundaryLinesGame 5 0 = Inr PLAYER_1 \<and>
   onWinningLine (Board boundaryLinesGame) PLAYER_1 5 0 \<and>
   inBoard 0 6 \<and> cell (Board boundaryLinesGame) 0 6 = PLAYER_1 \<and>
   checkForWin boundaryLinesGame 0 6 = Inr PLAYER_1 \<and>
   onWinningLine (Board boundaryLinesGame) PLAYER_1 0 6"
proof -
  have a: "inBoard 5 0" "cell (Board boundaryLinesGame) 5 0 = PLAYER_1"
          "inBoard 0 6" "cell (Board boundaryLinesGame) 0 6 = PLAYER_1"
    by (simp_all add: inBoard_def cell_def boundaryLinesGame_def)
  have w: "checkForWin boundaryLinesGame 5 0 = Inr PLAYER_1"
          "checkForWin boundaryLinesGame 0 6 = Inr PLAYER_1"
    by (simp_all add: checkForWin_def index_def inBoard_def checkDirection_def
          countLoop.simps cell_def boundaryLinesGame_def)
  from checkForWin_iff_line_of_four [OF a(1) a(2)] w(1)
  have "onWinningLine (Board boundaryLinesGame) PLAYER_1 5 0" by simp
  moreover from checkForWin_iff_line_of_four [OF a(3) a(4)] w(2)
  have "onWinningLine (Board boundaryLinesGame) PLAYER_1 0 6" by simp
  ultimately show ?thesis using a w by simp
qed

section \<open>The AI selector's probes\<close>

lemma placePieceLoop_eq:
  "placePieceLoop g col player n =
     (case wouldWinRow (Board g) col n of
        Inl e \<Rightarrow> Inl e
      | Inr r \<Rightarrow> if r = - 1 then Inr (g, - 1)
                 else Inr (g\<lparr>Board := setCell (Board g) r col player\<rparr>, r))"
  by (induction n) (auto split: sum.splits)

lemma wouldWinRow_spec:
  assumes "0 \<le> col" "col < BOARD_COLS" "int n \<le> BOARD_ROWS"
  shows "\<exists>r. wouldWinRow b col n = Inr r \<and>
           ((r = - 1 \<and> (\<forall>r'. 0 \<le> r' \<and> r' < int n \<longrightarrow> cell b r' col \<noteq> CELL_EMPTY)) \<or>
            (0 \<le> r \<and> r < int n \<and> cell b r col = CELL_EMPTY \<and>
             (\<forall>r'. r < r' \<and> r' < int n \<longrightarrow> cell b r' col \<noteq> CELL_EMPTY)))"
  using assms
proof (induction n)
  case 0
  then show ?case by simp
next
  case (Suc n)
  then have inb: "inBoard (int n) col" by (simp add: inBoard_def)
  show ?case
  proof (cases "cell b (int n) col = CELL_EMPTY")
    case True
    with inb show ?thesis by (auto simp: index_def)
  next
    case False
    from Suc obtain r where r: "wouldWinRow b col n = Inr r"
      "(r = - 1 \<and> (\<forall>r'. 0 \<le> r' \<and> r' < int n \<longrightarrow> cell b r' col \<noteq> CELL_EMPTY)) \<or>
       (0 \<le> r \<and> r < int n \<and> cell b r col = CELL_EMPTY \<and>
        (\<forall>r'. r < r' \<and> r' < int n \<longrightarrow> cell b r' col \<noteq> CELL_EMPTY))"
      by auto
    have step: "r' < int (Suc n) \<longleftrightarrow> r' < int n \<or> r' = int n" for r' by auto
    from r(2) False have
      "(r = - 1 \<and> (\<forall>r'. 0 \<le> r' \<and> r' < int (Suc n) \<longrightarrow> cell b r' col \<noteq> CELL_EMPTY)) \<or>
       (0 \<le> r \<and> r < int (Suc n) \<and> cell b r col = CELL_EMPTY \<and>
        (\<forall>r'. r < r' \<and> r' < int (Suc n) \<longrightarrow> cell b r' col \<noteq> CELL_EMPTY))"
      unfolding step by auto
    moreover from False inb r(1) have "wouldWinRow b col (Suc n) = Inr r"
      by (simp add: index_def)
    ultimately show ?thesis by blast
  qed
qed

lemma wouldWinRow_range:
  "\<not> (0 \<le> col \<and> col < BOARD_COLS) \<Longrightarrow> wouldWinRow b col (Suc n) = Inl IndexOutOfRange"
  by (auto simp: index_def inBoard_def)

lemma wouldWin_eq:
  assumes wf: "wf_board (Board g)" and col: "0 \<le> col" "col < BOARD_COLS"
  shows "wouldWin g col player = Inr (g, winsAt g col player)"
proof -
  from wouldWinRow_spec [OF col, of 6 "Board g"]
  obtain r where r: "wouldWinRow (Board g) col 6 = Inr r"
    "r = - 1 \<or> (0 \<le> r \<and> r < 6 \<and> cell (Board g) r col = CELL_EMPTY)"
    by auto
  show ?thesis
  proof (cases "r = - 1")
    case True
    with r(1) show ?thesis
      by (simp add: wouldWin_def winsAt_def placePiece_def placePieceLoop_eq)
  next
    case False
    with r(2) col have inb: "inBoard r col" and empty: "cell (Board g) r col = CELL_EMPTY"
      by (auto simp: inBoard_def)
    let ?g1 = "g\<lparr>Board := setCell (Board g) r col player\<rparr>"
    have "setCell (Board g) r col CELL_EMPTY = Board g"
      using setCell_same [OF wf inb] empty by simp
    then have restored: "?g1\<lparr>Board := setCell (Board ?g1) r col CELL_EMPTY\<rparr> = g"
      by (simp add: setCell_setCell)
    from False r(1) inb restored show ?thesis
      by (simp add: wouldWin_def winsAt_def placePiece_def placePieceLoop_eq
          checkForWin_eq Let_def)
  qed
qed

lemma wouldWin_range:
  "\<not> (0 \<le> col \<and> col < BOARD_COLS) \<Longrightarrow> wouldWin g col player = Inl IndexOutOfRange"
  using wouldWinRow_range [of col "Board g" 5]
  by (simp add: wouldWin_def eval_nat_numeral)

lemma findWinningMoveLoop_eq:
  assumes "wf_board (Board g)" and "\<forall>c \<in> set cols. 0 \<le> c \<and> c < BOARD_COLS"
  shows "findWinningMoveLoop g cols player =
     Inr (g, case find (\<lambda>c. winsAt g c player) cols of None \<Rightarrow> - 1 | Some c \<Rightarrow> c)"
  using assms
  by (induction cols) (simp_all add: wouldWin_eq)

lemma getValidMoves_range: "c \<in> set (getValidMoves g) \<Longrightarrow> 0 \<le> c \<and> c < BOARD_COLS"
  by (auto simp: getValidMoves_def)

lemma set_getValidMoves: "set (getValidMoves g) = {c. isValidMove g c}"
  by (auto simp: getValidMoves_def isValidMove_def)

lemma find_valid_range:
  assumes "find P (getValidMoves g) = Some c"
  shows "0 \<le> c \<and> c < BOARD_COLS \<and> isValidMove g c \<and> P c"
proof -
  from assms have "c \<in> set (getValidMoves g)" and "P c"
    by (auto simp: find_Some_iff)
  then show ?thesis
    using getValidMoves_range [of c g] by (simp add: set_getValidMoves)
qed

lemma getBestMove_eq:
  assumes "wf_board (Board g)"
  shows "getBestMove g rnd = Inr (g, bestCol g rnd)"
proof -
  have fw: "findWinningMove g p =
      Inr (g, case find (\<lambda>c. winsAt g c p) (getValidMoves g) of None \<Rightarrow> - 1 | Some c \<Rightarrow> c)" for p
    unfolding findWinningMove_def
    using assms getValidMoves_range by (intro findWinningMoveLoop_eq) auto
  show ?thesis
    by (auto simp: getBestMove_def bestCol_def fw split: option.splits dest: find_valid_range)
qed

lemma findRandomValidMove_range: "0 \<le> findRandomValidMove g rnd \<and> findRandomValidMove g rnd < BOARD_COLS"
proof (cases "getValidMoves g = []")
  case True
  then show ?thesis by (simp add: findRandomValidMove_def)
next
  case False
  then have "getValidMoves g ! (rnd mod length (getValidMoves g)) \<in> set (getValidMoves g)"
    by (intro nth_mem) simp
  from getValidMoves_range [OF this] False show ?thesis
    by (simp add: findRandomValidMove_def Let_def)
qed

lemma bestCol_range: "0 \<le> bestCol g rnd \<and> bestCol g rnd < BOARD_COLS"
  using findRandomValidMove_range [of g rnd]
  by (auto simp: bestCol_def split: option.splits dest: find_valid_range)

text \<open>
  Claim C7. wouldWin hands back the state it was given, for every board of the right
  shape, every column and every side: for a column in [0,7) the probe cell was empty
  and is set back to empty on the path that wrote it, and the path without a landing
  row writes nothing; for any other column the first board read panics before anything
  is written. So a whole getBestMove call returns with the state it started from.
\<close>

theorem wouldWin_getBestMove_leave_state:
  assumes "wf_board (Board g)"
  shows "(0 \<le> col \<and> col < BOARD_COLS \<longrightarrow> (\<exists>w. wouldWin g col player = Inr (g, w))) \<and>
         (\<not> (0 \<le> col \<and> col < BOARD_COLS) \<longrightarrow> wouldWin g col player = Inl IndexOutOfRange) \<and>
         (\<exists>c. getBestMove g rnd = Inr (g, c))"
  using assms by (simp add: wouldWin_eq wouldWin_range getBestMove_eq)

theorem wouldWin_getBestMove_leave_state_witness:
  "wf_board (Board boundaryLinesGame) \<and>
   (\<exists>w. wouldWin boundaryLinesGame 4 PLAYER_2 = Inr (boundaryLinesGame, w)) \<and>
   wouldWin boundaryLinesGame 7 PLAYER_2 = Inl IndexOutOfRange \<and>
   (\<exists>c. getBestMove boundaryLinesGame 0 = Inr (boundaryLinesGame, c))"
proof -
  have wf: "wf_board (Board boundaryLinesGame)"
    by (simp add: wf_board_def boundaryLinesGame_def)
  from wouldWin_getBestMove_leave_state [OF wf, of 4 PLAYER_2 0]
       wouldWin_getBestMove_leave_state [OF wf, of 7 PLAYER_2 0] wf
  show ?thesis by simp
qed

text \<open>
  On a board with the gravity invariant, the test of isValidMove (top cell empty) says
  that the column has an empty cell.
\<close>

lemma isValidMove_iff_empty_cell:
  assumes "gravity (Board g)" and "0 \<le> c" and "c < BOARD_COLS"
  shows "isValidMove g c \<longleftrightarrow> (\<exists>r. 0 \<le> r \<and> r < BOARD_ROWS \<and> cell (Board g) r c = CELL_EMPTY)"
proof
  assume "isValidMove g c"
  then have "cell (Board g) 0 c = CELL_EMPTY" by (simp add: isValidMove_def)
  then show "\<exists>r. 0 \<le> r \<and> r < BOARD_ROWS \<and> cell (Board g) r c = CELL_EMPTY"
    by (intro exI [of _ 0]) simp
next
  assume "\<exists>r. 0 \<le> r \<and> r < BOARD_ROWS \<and> cell (Board g) r c = CELL_EMPTY"
  then obtain r where r: "0 \<le> r" "r < BOARD_ROWS" "cell (Board g) r c = CELL_EMPTY" by blast
  from assms obtain h where h: "\<forall>row \<in> {0..<BOARD_ROWS}.
      (cell (Board g) row c \<noteq> CELL_EMPTY) = (BOARD_ROWS - h \<le> row)"
    unfolding gravity_def by force
  from h r have "r < BOARD_ROWS - h" by force
  with r(1) have "\<not> BOARD_ROWS - h \<le> 0" by simp
  with h have "cell (Board g) 0 c = CELL_EMPTY" by force
  with assms show "isValidMove g c" by (simp add: isValidMove_def)
qed

lemma find_filter: "find P (filter Q xs) = find (\<lambda>x. Q x \<and> P x) xs"
  by (induction xs) auto

lemma find_upto_first:
  assumes "P c" "i \<le> c" "c \<le> j" "\<forall>c'. i \<le> c' \<and> c' < c \<longrightarrow> \<not> P c'"
  shows "find P [i..j] = Some c"
  using assms
proof (induction "nat (c - i)" arbitrary: i)
  case 0
  then have "i = c" by simp
  with 0 show ?case by (simp add: upto_rec1)
next
  case (Suc n)
  then have lt: "i < c" and notP: "\<not> P i" by auto
  from Suc.hyps(2) have "n = nat (c - (i + 1))" by simp
  moreover from Suc.prems lt have "P c" "i + 1 \<le> c" "c \<le> j"
    "\<forall>c'. i + 1 \<le> c' \<and> c' < c \<longrightarrow> \<not> P c'" by auto
  ultimately have "find P [i + 1..j] = Some c" by (rule Suc.hyps(1))
  moreover from lt Suc.prems have "[i..j] = i # [i + 1..j]" by (simp add: upto_rec1)
  ultimately show ?case using notP by simp
qed

lemma find_valid_first:
  assumes "isValidMove g c" "P c"
    and "\<forall>c'. 0 \<le> c' \<and> c' < c \<longrightarrow> \<not> (isValidMove g c' \<and> P c')"
  shows "find P (getValidMoves g) = Some c"
proof -
  from assms(1) have "0 \<le> c" "c \<le> 6" by (simp_all add: isValidMove_def)
  with assms show ?thesis
    unfolding getValidMoves_def find_filter
    by (intro find_upto_first) auto
qed

lemma find_valid_none:
  "(\<forall>c. isValidMove g c \<longrightarrow> \<not> P c) \<Longrightarrow> find P (getValidMoves g) = None"
  by (simp add: find_None_iff set_getValidMoves)

text \<open>
  Claim C6. getBestMove follows the priority order. A column "has room" when
  isValidMove holds (the code's test: in range, top cell empty; with the gravity
  invariant this is \<open>isValidMove_iff_empty_cell\<close>); a hypothetical placement
  "wins" for a side when the real placement would (\<open>winsAt\<close>).
  (1) If \<open>c\<close> is the leftmost column with room that wins for player 2, the result is
  \<open>c\<close>. (2) If no column with room wins for player 2 and \<open>c\<close> is the leftmost that wins
  for player 1, the result is \<open>c\<close>. (3) If no column with room wins for either side,
  the result is 3 when column 3 has room, and otherwise, when some column has room, a
  column with room. (4) Whenever some column with room wins for player 2, the result is
  such a column, whatever player 1 could win; and when none does but some column with
  room wins for player 1, the result is such a column. In each case the state is
  returned as it was.
\<close>

theorem getBestMove_priority:
  assumes "wf_board (Board g)"
  shows "(\<forall>c. isValidMove g c \<and> winsAt g c PLAYER_2 \<and>
              (\<forall>c'. 0 \<le> c' \<and> c' < c \<longrightarrow> \<not> (isValidMove g c' \<and> winsAt g c' PLAYER_2)) \<longrightarrow>
            getBestMove g rnd = Inr (g, c)) \<and>
         ((\<forall>c. isValidMove g c \<longrightarrow> \<not> winsAt g c PLAYER_2) \<longrightarrow>
            (\<forall>c. isValidMove g c \<and> winsAt g c PLAYER_1 \<and>
              (\<forall>c'. 0 \<le> c' \<and> c' < c \<longrightarrow> \<not> (isValidMove g c' \<and> winsAt g c' PLAYER_1)) \<longrightarrow>
            getBestMove g rnd = Inr (g, c))) \<and>
         ((\<forall>c. isValidMove g c \<longrightarrow> \<not> winsAt g c PLAYER_2 \<and> \<not> winsAt g c PLAYER_1) \<longrightarrow>
            (isValidMove g 3 \<longrightarrow> getBestMove g rnd = Inr (g, 3)) \<and>
            (\<not> isValidMove g 3 \<and> (\<exists>c. isValidMove g c) \<longrightarrow>
               (\<exists>c. getBestMove g rnd = Inr (g, c) \<and> isValidMove g c))) \<and>
         ((\<exists>c. isValidMove g c \<and> winsAt g c PLAYER_2) \<longrightarrow>
            (\<exists>c. getBestMove g rnd = Inr (g, c) \<and> isValidMove g c \<and> winsAt g c PLAYER_2)) \<and>
         ((\<forall>c. isValidMove g c \<longrightarrow> \<not> winsAt g c PLAYER_2) \<and>
          (\<exists>c. isValidMove g c \<and> winsAt g c PLAYER_1) \<longrightarrow>
            (\<exists>c. getBestMove g rnd = Inr (g, c) \<and> isValidMove g c \<and> winsAt g c PLAYER_1))"
proof (intro conjI allI impI)
  fix c
  assume "isValidMove g c \<and> winsAt g c PLAYER_2 \<and>
              (\<forall>c'. 0 \<le> c' \<and> c' < c \<longrightarrow> \<not> (isValidMove g c' \<and> winsAt g c' PLAYER_2))"
  then have "find (\<lambda>c. winsAt g c PLAYER_2) (getValidMoves g) = Some c"
    by (intro find_valid_first) auto
  then show "getBestMove g rnd = Inr (g, c)"
    using assms by (simp add: getBestMove_eq bestCol_def)
next
  fix c
  assume "\<forall>c. isValidMove g c \<longrightarrow> \<not> winsAt g c PLAYER_2"
  then have "find (\<lambda>c. winsAt g c PLAYER_2) (getValidMoves g) = None"
    by (intro find_valid_none)
  moreover assume "isValidMove g c \<and> winsAt g c PLAYER_1 \<and>
              (\<forall>c'. 0 \<le> c' \<and> c' < c \<longrightarrow> \<not> (isValidMove g c' \<and> winsAt g c' PLAYER_1))"
  then have "find (\<lambda>c. winsAt g c PLAYER_1) (getValidMoves g) = Some c"
    by (intro find_valid_first) auto
  ultimately show "getBestMove g rnd = Inr (g, c)"
    using assms by (simp add: getBestMove_eq bestCol_def)
next
  assume "\<forall>c. isValidMove g c \<longrightarrow> \<not> winsAt g c PLAYER_2 \<and> \<not> winsAt g c PLAYER_1"
  then have "find (\<lambda>c. winsAt g c PLAYER_2) (getValidMoves g) = None"
    "find (\<lambda>c. winsAt g c PLAYER_1) (getValidMoves g) = None"
    by (simp_all add: find_valid_none)
  moreover assume "isValidMove g 3"
  ultimately show "getBestMove g rnd = Inr (g, 3)"
    using assms by (simp add: getBestMove_eq bestCol_def)
next
  assume "\<forall>c. isValidMove g c \<longrightarrow> \<not> winsAt g c PLAYER_2 \<and> \<not> winsAt g c PLAYER_1"
  then have none: "find (\<lambda>c. winsAt g c PLAYER_2) (getValidMoves g) = None"
    "find (\<lambda>c. winsAt g c PLAYER_1) (getValidMoves g) = None"
    by (simp_all add: find_valid_none)
  assume a: "\<not> isValidMove g 3 \<and> (\<exists>c. isValidMove g c)"
  then have ne: "getValidMoves g \<noteq> []"
    using set_getValidMoves [of g] by auto
  then have "getValidMoves g ! (rnd mod length (getValidMoves g)) \<in> set (getValidMoves g)"
    by (intro nth_mem) simp
  with ne have "isValidMove g (findRandomValidMove g rnd)"
    by (simp add: findRandomValidMove_def Let_def set_getValidMoves)
  moreover from none a have "getBestMove g rnd = Inr (g, findRandomValidMove g rnd)"
    using assms by (simp add: getBestMove_eq bestCol_def)
  ultimately show "\<exists>c. getBestMove g rnd = Inr (g, c) \<and> isValidMove g c" by blast
next
  assume "\<exists>c. isValidMove g c \<and> winsAt g c PLAYER_2"
  then have "find (\<lambda>c. winsAt g c PLAYER_2) (getValidMoves g) \<noteq> None"
    by (auto simp: find_None_iff set_getValidMoves)
  then obtain c where c: "find (\<lambda>c. winsAt g c PLAYER_2) (getValidMoves g) = Some c" by auto
  then have "getBestMove g rnd = Inr (g, c)"
    using assms by (simp add: getBestMove_eq bestCol_def)
  with find_valid_range [OF c]
  show "\<exists>c. getBestMove g rnd = Inr (g, c) \<and> isValidMove g c \<and> winsAt g c PLAYER_2"
    by blast
next
  assume a: "(\<forall>c. isValidMove g c \<longrightarrow> \<not> winsAt g c PLAYER_2) \<and>
          (\<exists>c. isValidMove g c \<and> winsAt g c PLAYER_1)"
  then have none: "find (\<lambda>c. winsAt g c PLAYER_2) (getValidMoves g) = None"
    by (simp add: find_valid_none)
  from a have "find (\<lambda>c. winsAt g c PLAYER_1) (getValidMoves g) \<noteq> None"
    by (auto simp: find_None_iff set_getValidMoves)
  then obtain c where c: "find (\<lambda>c. winsAt g c PLAYER_1) (getValidMoves g) = Some c" by auto
  with none have "getBestMove g rnd = Inr (g, c)"
    using assms by (simp add: getBestMove_eq bestCol_def)
  with find_valid_range [OF c]
  show "\<exists>c. getBestMove g rnd = Inr (g, c) \<and> isValidMove g c \<and> winsAt g c PLAYER_1"
    by blast
qed

theorem getBestMove_priority_witness:
  "wf_board (Board priorityGame) \<and>
   isValidMove priorityGame 2 \<and> winsAt priorityGame 2 PLAYER_2 \<and>
   isValidMove priorityGame 5 \<and> winsAt priorityGame 5 PLAYER_1 \<and>
   getBestMove priorityGame 0 = Inr (priorityGame, 2)"
proof -
  have wf: "wf_board (Board priorityGame)"
    by (simp add: wf_board_def priorityGame_def)
  have two: "isValidMove priorityGame 2 \<and> winsAt priorityGame 2 PLAYER_2"
    by (simp add: eval_simps priorityGame_def)
  have five: "isValidMove priorityGame 5 \<and> winsAt priorityGame 5 PLAYER_1"
    by (simp add: eval_simps priorityGame_def)
  have left: "\<not> winsAt priorityGame 0 PLAYER_2" "\<not> winsAt priorityGame 1 PLAYER_2"
    by (simp_all add: eval_simps priorityGame_def)
  have "\<forall>c'. 0 \<le> c' \<and> c' < 2 \<longrightarrow>
          \<not> (isValidMove priorityGame c' \<and> winsAt priorityGame c' PLAYER_2)"
  proof (intro allI impI)
    fix c' :: int
    assume "0 \<le> c' \<and> c' < 2"
    then have "c' = 0 \<or> c' = 1" by auto
    with left show "\<not> (isValidMove priorityGame c' \<and> winsAt priorityGame c' PLAYER_2)"
      by auto
  qed
  with getBestMove_priority [OF wf, of 0, THEN conjunct1, rule_format, of 2] two
  have "getBestMove priorityGame 0 = Inr (priorityGame, 2)" by blast
  with wf two five show ?thesis by blast
qed

text \<open>
  Claim C10. On every board getBestMove returns, and its column lies in [0,7). When
  getValidMoves is empty, findRandomValidMove returns 0 and so does getBestMove. On a
  completely full board getValidMoves is empty, placePiece on column 0 reports -1 and
  aiMakeMove returns the state unchanged.
\<close>

theorem getBestMove_total:
  assumes "wf_board (Board g)"
  shows "(\<exists>c. getBestMove g rnd = Inr (g, c) \<and> 0 \<le> c \<and> c < BOARD_COLS) \<and>
         (getValidMoves g = [] \<longrightarrow>
            findRandomValidMove g rnd = 0 \<and> getBestMove g rnd = Inr (g, 0)) \<and>
         ((\<forall>i j. inBoard i j \<longrightarrow> cell (Board g) i j \<noteq> CELL_EMPTY) \<longrightarrow>
            getValidMoves g = [] \<and> placePiece g 0 PLAYER_2 = Inr (g, - 1) \<and>
            aiMakeMove g rnd = Inr g)"
proof (intro conjI impI)
  show "\<exists>c. getBestMove g rnd = Inr (g, c) \<and> 0 \<le> c \<and> c < BOARD_COLS"
    using assms bestCol_range [of g rnd] by (simp add: getBestMove_eq)
next
  assume e: "getValidMoves g = []"
  then show "findRandomValidMove g rnd = 0" by (simp add: findRandomValidMove_def)
  from e have "\<not> isValidMove g 3" using set_getValidMoves [of g] by auto
  with e show "getBestMove g rnd = Inr (g, 0)"
    using assms by (simp add: getBestMove_eq bestCol_def findRandomValidMove_def)
next
  assume full: "\<forall>i j. inBoard i j \<longrightarrow> cell (Board g) i j \<noteq> CELL_EMPTY"
  then have nv: "\<not> isValidMove g c" for c
    by (auto simp: isValidMove_def inBoard_def)
  then show e: "getValidMoves g = []"
    using set_getValidMoves [of g] by auto
  from full show p: "placePiece g 0 PLAYER_2 = Inr (g, - 1)"
    unfolding placePiece_def by (intro placePieceLoop_full) (auto simp: inBoard_def)
  from e nv have "getBestMove g rnd = Inr (g, 0)"
    using assms by (simp add: getBestMove_eq bestCol_def findRandomValidMove_def)
  with p show "aiMakeMove g rnd = Inr g" by (simp add: aiMakeMove_def)
qed

theorem getBestMove_total_witness:
  "wf_board (Board fullGame) \<and> getValidMoves fullGame = [] \<and>
   getBestMove fullGame 0 = Inr (fullGame, 0) \<and> aiMakeMove fullGame 0 = Inr fullGame"
proof -
  have wf: "wf_board (Board fullGame)"
    by (simp add: wf_board_def fullGame_def)
  have full: "\<forall>i j. inBoard i j \<longrightarrow> cell (Board fullGame) i j \<noteq> CELL_EMPTY"
  proof (intro allI impI)
    fix i j
    assume "inBoard i j"
    then have "i \<in> {0, 1, 2, 3, 4, 5}" "j \<in> {0, 1, 2, 3, 4, 5, 6}"
      by (auto simp: inBoard_def)
    then show "cell (Board fullGame) i j \<noteq> CELL_EMPTY"
      by (auto simp: cell_def fullGame_def)
  qed
  from getBestMove_total [OF wf, of 0] full wf show ?thesis by simp
qed

section \<open>The gravity invariant\<close>

lemma gravity_emptyBoard: "gravity emptyBoard"
  unfolding gravity_def
proof (intro ballI)
  fix col :: int assume "col \<in> {0..<BOARD_COLS}"
  then have "\<forall>row \<in> {0..<BOARD_ROWS}. (cell emptyBoard row col \<noteq> CELL_EMPTY) = (BOARD_ROWS - 0 \<le> row)"
    by (simp add: cell_emptyBoard inBoard_def)
  then show "\<exists>h \<in> {0..BOARD_ROWS}. \<forall>row \<in> {0..<BOARD_ROWS}.
      (cell emptyBoard row col \<noteq> CELL_EMPTY) = (BOARD_ROWS - h \<le> row)"
    by (intro bexI [of _ 0]) simp_all
qed

lemma gravity_setCell:
  assumes wf: "wf_board b" and grav: "gravity b" and inb: "inBoard r col"
    and empty: "cell b r col = CELL_EMPTY"
    and below: "\<forall>r'. r < r' \<and> r' < BOARD_ROWS \<longrightarrow> cell b r' col \<noteq> CELL_EMPTY"
  shows "gravity (setCell b r col p)"
proof (cases "p = CELL_EMPTY")
  case True
  with setCell_same [OF wf inb] empty grav show ?thesis by simp
next
  case False
  show ?thesis
    unfolding gravity_def
  proof (intro ballI)
    fix c :: int assume c: "c \<in> {0..<BOARD_COLS}"
    with grav obtain h where h: "0 \<le> h" "h \<le> BOARD_ROWS"
      "\<forall>row \<in> {0..<BOARD_ROWS}. (cell b row c \<noteq> CELL_EMPTY) = (BOARD_ROWS - h \<le> row)"
      unfolding gravity_def by force
    show "\<exists>h \<in> {0..BOARD_ROWS}. \<forall>row \<in> {0..<BOARD_ROWS}.
        (cell (setCell b r col p) row c \<noteq> CELL_EMPTY) = (BOARD_ROWS - h \<le> row)"
    proof (cases "c = col")
      case False
      with c wf inb have "\<forall>row \<in> {0..<BOARD_ROWS}. cell (setCell b r col p) row c = cell b row c"
        by (simp add: cell_setCell inBoard_def)
      with h show ?thesis by (intro bexI [of _ h]) simp_all
    next
      case True
      from inb have r: "0 \<le> r" "r < BOARD_ROWS" by (simp_all add: inBoard_def)
      from h(3) r empty True have lo: "r < BOARD_ROWS - h" by force
      have "BOARD_ROWS - h \<le> r + 1"
      proof (cases "r + 1 < BOARD_ROWS")
        case True
        with below have "cell b (r + 1) col \<noteq> CELL_EMPTY" by simp
        with h(3) True r \<open>c = col\<close> show ?thesis by force
      next
        case False
        with r h lo show ?thesis by simp
      qed
      with lo have hr: "BOARD_ROWS - h = r + 1" by simp
      have "\<forall>row \<in> {0..<BOARD_ROWS}.
          (cell (setCell b r col p) row c \<noteq> CELL_EMPTY) = (BOARD_ROWS - (h + 1) \<le> row)"
      proof
        fix row :: int assume row: "row \<in> {0..<BOARD_ROWS}"
        with c have "inBoard row c" by (simp add: inBoard_def)
        with wf inb have eq: "cell (setCell b r col p) row c = (if row = r then p else cell b row c)"
          using True by (simp add: cell_setCell)
        show "(cell (setCell b r col p) row c \<noteq> CELL_EMPTY) = (BOARD_ROWS - (h + 1) \<le> row)"
        proof (cases "row = r")
          case True
          with eq hr \<open>p \<noteq> CELL_EMPTY\<close> show ?thesis by simp
        next
          case False
          with eq h(3) row hr show ?thesis by force
        qed
      qed
      moreover from hr r h have "h + 1 \<in> {0..BOARD_ROWS}" by simp
      ultimately show ?thesis by (intro bexI [of _ "h + 1"])
    qed
  qed
qed

lemma placePiece_cases:
  assumes "placePiece g col player = Inr (g', row)"
  shows "0 \<le> col \<and> col < BOARD_COLS \<and>
         ((row = - 1 \<and> g' = g \<and> (\<forall>r'. 0 \<le> r' \<and> r' < BOARD_ROWS \<longrightarrow> cell (Board g) r' col \<noteq> CELL_EMPTY)) \<or>
          (inBoard row col \<and> cell (Board g) row col = CELL_EMPTY \<and>
           (\<forall>r'. row < r' \<and> r' < BOARD_ROWS \<longrightarrow> cell (Board g) r' col \<noteq> CELL_EMPTY) \<and>
           g' = g\<lparr>Board := setCell (Board g) row col player\<rparr>))"
proof -
  have col: "0 \<le> col \<and> col < BOARD_COLS"
  proof (rule ccontr)
    assume "\<not> (0 \<le> col \<and> col < BOARD_COLS)"
    from placePieceLoop_range [OF this, of g player 5] assms show False
      by (simp add: placePiece_def eval_nat_numeral)
  qed
  then have c: "0 \<le> col" "col < BOARD_COLS" by simp_all
  from wouldWinRow_spec [OF c, of 6 "Board g"] assms col show ?thesis
    by (auto simp: placePiece_def placePieceLoop_eq inBoard_def split: if_splits)
qed

lemma placePiece_inv:
  assumes "wf_board (Board g)" "gravity (Board g)" "placePiece g col player = Inr (g', row)"
  shows "wf_board (Board g') \<and> gravity (Board g')"
  using placePiece_cases [OF assms(3)] assms(1,2)
  by (auto simp: wf_setCell gravity_setCell)

lemma checkGameEnd_fields:
  assumes "checkGameEnd g row col = Inr g'"
  shows "Board g' = Board g \<and> Mode g' = Mode g \<and> (GameOver g \<longrightarrow> GameOver g')"
  using assms by (auto simp: checkGameEnd_def split: sum.splits if_splits)

lemma aiMakeMove_inv:
  assumes "wf_board (Board g)" "gravity (Board g)" "aiMakeMove g rnd = Inr g'"
  shows "wf_board (Board g') \<and> gravity (Board g')"
proof -
  from assms(3) obtain g2 row col g3 where
    p: "placePiece g col PLAYER_2 = Inr (g2, row)"
    and e: "row = - 1 \<and> g' = g2 \<or> checkGameEnd g2 row col = Inr g3 \<and> Board g' = Board g3"
    by (auto simp: aiMakeMove_def getBestMove_eq [OF assms(1)] split: sum.splits if_splits)
  from placePiece_inv [OF assms(1,2) p] e show ?thesis
    by (auto dest: checkGameEnd_fields)
qed

lemma aiMoveAPI_inv:
  assumes "wf_board (Board g)" "gravity (Board g)" "aiMoveAPI g rnd = Inr (g', ok)"
  shows "wf_board (Board g') \<and> gravity (Board g')"
proof -
  from assms(3) obtain g2 row col where
    p: "placePiece g col PLAYER_2 = Inr (g2, row)"
    and e: "row = - 1 \<and> g' = g2 \<or> checkGameEnd g2 row col = Inr g'"
    by (auto simp: aiMoveAPI_def getBestMove_eq [OF assms(1)] split: sum.splits if_splits)
  from placePiece_inv [OF assms(1,2) p] e show ?thesis
    by (auto dest: checkGameEnd_fields)
qed

lemma handleMoveAPI_inv:
  assumes "wf_board (Board g)" "gravity (Board g)" "handleMoveAPI g col = Inr (g', ok)"
  shows "wf_board (Board g') \<and> gravity (Board g')"
proof -
  from assms(3) obtain g2 row where
    p: "placePiece g col (CurrentPlayer g) = Inr (g2, row)"
    and e: "row = - 1 \<and> g' = g2 \<or> checkGameEnd g2 row col = Inr g'"
    by (auto simp: handleMoveAPI_def split: sum.splits if_splits)
  from placePiece_inv [OF assms(1,2) p] e show ?thesis
    by (auto dest: checkGameEnd_fields)
qed

lemma handleMove_inv:
  assumes "wf_board (Board g)" "gravity (Board g)" "handleMove g colInput rnd = Inr g'"
  shows "wf_board (Board g') \<and> gravity (Board g')"
proof (cases colInput)
  case None
  with assms show ?thesis by (auto simp: handleMove_def)
next
  case (Some col)
  show ?thesis
  proof (cases "col < 0 \<or> col \<ge> BOARD_COLS")
    case True
    with Some assms show ?thesis by (auto simp: handleMove_def)
  next
    case False
    with Some assms(3) obtain g1 row where p: "placePiece g col (CurrentPlayer g) = Inr (g1, row)"
      by (auto simp: handleMove_def split: sum.splits)
    from placePiece_inv [OF assms(1,2) p] have g1: "wf_board (Board g1)" "gravity (Board g1)"
      by simp_all
    show ?thesis
    proof (cases "row = - 1")
      case True
      with Some False p assms(3) g1 show ?thesis by (auto simp: handleMove_def)
    next
      case row: False
      with Some False p assms(3) obtain g2 where e: "checkGameEnd g1 row col = Inr g2"
        and r: "g' = g2 \<or> aiMakeMove g2 rnd = Inr g'"
        by (auto simp: handleMove_def split: sum.splits if_splits)
      from checkGameEnd_fields [OF e] g1 have g2: "wf_board (Board g2)" "gravity (Board g2)"
        by simp_all
      from r show ?thesis
      proof
        assume "g' = g2"
        with g2 show ?thesis by simp
      next
        assume "aiMakeMove g2 rnd = Inr g'"
        from aiMakeMove_inv [OF g2 this] show ?thesis .
      qed
    qed
  qed
qed

lemma reachable_inv: "reachable g \<Longrightarrow> wf_board (Board g) \<and> gravity (Board g)"
proof (induction rule: reachable.induct)
  case initializeGame
  show ?case by (simp add: startNewGame_def wf_emptyBoard gravity_emptyBoard)
next
  case (newGame g mode)
  show ?case by (simp add: startNewGame_def wf_emptyBoard gravity_emptyBoard)
next
  case (move g colInput rnd g')
  then show ?case using handleMove_inv by blast
next
  case (moveAPI g col g' ok)
  then show ?case using handleMoveAPI_inv by blast
next
  case (aiAPI g rnd g' ok)
  then show ?case using aiMoveAPI_inv by blast
qed

text \<open>
  Claim C8. Every placement preserves the gravity invariant: when the board has the
  invariant, the board placePiece leaves has it too, for every column and side (a
  placement that returns -1 leaves the board as it was). Hence the invariant holds in
  every state the server reaches from the empty board through its move handlers.
\<close>

theorem gravity_invariant:
  "(wf_board (Board g) \<and> gravity (Board g) \<longrightarrow>
      (\<forall>col player g' row. placePiece g col player = Inr (g', row) \<longrightarrow>
         wf_board (Board g') \<and> gravity (Board g'))) \<and>
   (reachable g \<longrightarrow> gravity (Board g))"
  using placePiece_inv reachable_inv by blast

theorem gravity_invariant_witness:
  "wf_board (Board (startNewGame GAME_MODE_AI)) \<and> gravity (Board (startNewGame GAME_MODE_AI)) \<and>
   reachable (startNewGame GAME_MODE_AI) \<and>
   (\<exists>g'. placePiece (startNewGame GAME_MODE_AI) 3 PLAYER_1 = Inr (g', 5) \<and> gravity (Board g'))"
proof -
  let ?g = "startNewGame GAME_MODE_AI"
  have r: "reachable ?g"
    by (rule reachable.newGame [OF reachable.initializeGame])
  with gravity_invariant [of ?g] have g: "gravity (Board ?g)" by simp
  have wf: "wf_board (Board ?g)" by (simp add: startNewGame_def wf_emptyBoard)
  have "\<exists>g'. placePiece ?g 3 PLAYER_1 = Inr (g', 5)"
    by (simp add: eval_simps startNewGame_def emptyBoard_def)
  then obtain g' where p: "placePiece ?g 3 PLAYER_1 = Inr (g', 5)" ..
  with gravity_invariant [of ?g] wf g have "gravity (Board g')" by blast
  with wf g r p show ?thesis by blast
qed

section \<open>The automated reply\<close>

lemma bestCol_valid:
  assumes "getValidMoves g \<noteq> []"
  shows "isValidMove g (bestCol g rnd)"
proof -
  from assms have "getValidMoves g ! (rnd mod length (getValidMoves g)) \<in> set (getValidMoves g)"
    by (intro nth_mem) simp
  with assms have "isValidMove g (findRandomValidMove g rnd)"
    by (simp add: findRandomValidMove_def Let_def set_getValidMoves)
  then show ?thesis
    by (auto simp: bestCol_def split: option.splits dest: find_valid_range)
qed

lemma not_full_valid:
  assumes "\<not> isBoardFull g"
  shows "getValidMoves g \<noteq> []"
proof -
  from assms obtain c where "c \<in> set [0..BOARD_COLS - 1]" "cell (Board g) 0 c = CELL_EMPTY"
    by (auto simp: isBoardFull_def list_all_iff)
  then have "isValidMove g c" by (simp add: isValidMove_def)
  then show ?thesis using set_getValidMoves [of g] by auto
qed

lemma placePiece_valid:
  assumes "isValidMove g c"
  shows "\<exists>r. placePiece g c player = Inr (g\<lparr>Board := setCell (Board g) r c player\<rparr>, r) \<and>
             inBoard r c \<and> cell (Board g) r c = CELL_EMPTY \<and>
             (\<forall>r'. r < r' \<and> r' < BOARD_ROWS \<longrightarrow> cell (Board g) r' c \<noteq> CELL_EMPTY)"
proof -
  from assms have c: "0 \<le> c" "c < BOARD_COLS" and top: "cell (Board g) 0 c = CELL_EMPTY"
    by (simp_all add: isValidMove_def)
  from wouldWinRow_spec [OF c, of 6 "Board g"] top c show ?thesis
    by (auto simp: placePiece_def placePieceLoop_eq inBoard_def)
qed

lemma checkGameEnd_total:
  assumes "inBoard row col"
  shows "\<exists>g'. checkGameEnd g row col = Inr g'"
  using assms by (simp add: checkGameEnd_def checkForWin_eq)

lemma checkGameEnd_active:
  assumes "checkGameEnd g row col = Inr g'" and "\<not> GameOver g'"
  shows "\<not> isBoardFull g \<and> \<not> GameOver g \<and>
         g' = (if Mode g = GAME_MODE_TWO_PLAYER \<or> (Mode g = GAME_MODE_AI \<and> CurrentPlayer g = PLAYER_1)
               then g\<lparr>CurrentPlayer := int64 (PLAYER_2 + PLAYER_1 - CurrentPlayer g)\<rparr>
               else g)\<lparr>StatusMessage := MsgNone\<rparr>"
  using assms by (auto simp: checkGameEnd_def split: sum.splits if_splits)

text \<open>
  Claim C9. In ai mode, let the human side (player 1) make an accepted move (placePiece
  succeeds) that does not end the game (GameOver is false after checkGameEnd). Then
  handleMove returns a state whose board is the board after the human's piece with
  exactly one more piece: one piece of player 2, in the lowest empty cell of a valid
  column. If the game is still not over in that state, CurrentPlayer is 1.
\<close>

theorem handleMove_one_automated_reply:
  assumes "wf_board (Board g)" and "Mode g = GAME_MODE_AI" and "CurrentPlayer g = PLAYER_1"
    and "placePiece g col PLAYER_1 = Inr (g1, row)" and "row \<noteq> - 1"
    and "checkGameEnd g1 row col = Inr g2" and "\<not> GameOver g2"
  shows "\<exists>c r g3. isValidMove g1 c \<and> inBoard r c \<and> cell (Board g1) r c = CELL_EMPTY \<and>
           (\<forall>r'. r < r' \<and> r' < BOARD_ROWS \<longrightarrow> cell (Board g1) r' c \<noteq> CELL_EMPTY) \<and>
           handleMove g (Some col) rnd = Inr g3 \<and>
           Board g3 = setCell (Board g1) r c PLAYER_2 \<and>
           (\<not> GameOver g3 \<longrightarrow> CurrentPlayer g3 = PLAYER_1)"
proof -
  from placePiece_cases [OF assms(4)] assms(5)
  have col: "0 \<le> col" "col < BOARD_COLS" and inb: "inBoard row col"
    and g1: "g1 = g\<lparr>Board := setCell (Board g) row col PLAYER_1\<rparr>"
    by auto
  from g1 assms(1-3) inb have g1f: "Mode g1 = GAME_MODE_AI" "CurrentPlayer g1 = PLAYER_1"
    "wf_board (Board g1)"
    by (simp_all add: wf_setCell)
  from checkGameEnd_active [OF assms(6,7)] g1f
  have nf: "\<not> isBoardFull g1" and g2: "g2 = g1\<lparr>CurrentPlayer := PLAYER_2, StatusMessage := MsgNone\<rparr>"
    by (simp_all add: int64_def)
  from g2 g1f have g2f: "Mode g2 = GAME_MODE_AI" "CurrentPlayer g2 = PLAYER_2"
    "wf_board (Board g2)" "Board g2 = Board g1"
    by simp_all
  from assms(4-7) col g2f have hm: "handleMove g (Some col) rnd = aiMakeMove g2 rnd"
    by (simp add: handleMove_def assms(3))
  from nf g2 have "\<not> isBoardFull g2" by (simp add: isBoardFull_def)
  then have valid: "isValidMove g2 (bestCol g2 rnd)"
    by (intro bestCol_valid not_full_valid)
  let ?c = "bestCol g2 rnd"
  from placePiece_valid [OF valid, of PLAYER_2] obtain r where
    p: "placePiece g2 ?c PLAYER_2 = Inr (g2\<lparr>Board := setCell (Board g2) r ?c PLAYER_2\<rparr>, r)"
    and r: "inBoard r ?c" "cell (Board g2) r ?c = CELL_EMPTY"
      "\<forall>r'. r < r' \<and> r' < BOARD_ROWS \<longrightarrow> cell (Board g2) r' ?c \<noteq> CELL_EMPTY"
    by blast
  let ?g2' = "g2\<lparr>Board := setCell (Board g2) r ?c PLAYER_2\<rparr>"
  from checkGameEnd_total [OF r(1), of ?g2'] obtain g3 where
    e: "checkGameEnd ?g2' r ?c = Inr g3" ..
  from checkGameEnd_fields [OF e] have b3: "Board g3 = setCell (Board g2) r ?c PLAYER_2"
    by simp
  from r(1) have "r \<noteq> - 1" by (auto simp: inBoard_def)
  with p e have ai: "aiMakeMove g2 rnd =
      Inr (if \<not> GameOver g3 then g3\<lparr>CurrentPlayer := PLAYER_1, StatusMessage := MsgNone\<rparr> else g3)"
    by (simp add: aiMakeMove_def getBestMove_eq [OF g2f(3)])
  let ?g3 = "if \<not> GameOver g3 then g3\<lparr>CurrentPlayer := PLAYER_1, StatusMessage := MsgNone\<rparr> else g3"
  from valid g2f(4) have v1: "isValidMove g1 ?c" by (simp add: isValidMove_def)
  have "Board ?g3 = setCell (Board g1) r ?c PLAYER_2" "\<not> GameOver ?g3 \<longrightarrow> CurrentPlayer ?g3 = PLAYER_1"
    using b3 g2f(4) by simp_all
  with v1 r hm ai g2f(4) show ?thesis
    by (intro exI [of _ ?c] exI [of _ r] exI [of _ ?g3]) simp
qed

theorem handleMove_one_automated_reply_witness:
  "wf_board (Board (startNewGame GAME_MODE_AI)) \<and>
   placePiece (startNewGame GAME_MODE_AI) 3 PLAYER_1 = Inr (aiHumanPlaced, 5) \<and>
   checkGameEnd aiHumanPlaced 5 3 = Inr aiHumanMoved \<and> \<not> GameOver aiHumanMoved \<and>
   (\<exists>c r g3. handleMove (startNewGame GAME_MODE_AI) (Some 3) 0 = Inr g3 \<and>
      Board g3 = setCell (Board aiHumanPlaced) r c PLAYER_2 \<and>
      (\<not> GameOver g3 \<longrightarrow> CurrentPlayer g3 = PLAYER_1))"
proof -
  let ?g = "startNewGame GAME_MODE_AI"
  have wf: "wf_board (Board ?g)" by (simp add: startNewGame_def wf_emptyBoard)
  have m: "Mode ?g = GAME_MODE_AI" "CurrentPlayer ?g = PLAYER_1"
    by (simp_all add: startNewGame_def)
  have p: "placePiece ?g 3 PLAYER_1 = Inr (aiHumanPlaced, 5)"
    by (simp add: eval_simps startNewGame_def emptyBoard_def aiHumanPlaced_def)
  have e: "checkGameEnd aiHumanPlaced 5 3 = Inr aiHumanMoved"
    by (simp add: eval_simps handler_simps aiHumanPlaced_def aiHumanMoved_def)
  have n: "\<not> GameOver aiHumanMoved" by (simp add: aiHumanMoved_def)
  from handleMove_one_automated_reply [OF wf m p _ e n, of 0]
  have "\<exists>c r g3. handleMove ?g (Some 3) 0 = Inr g3 \<and>
      Board g3 = setCell (Board aiHumanPlaced) r c PLAYER_2 \<and>
      (\<not> GameOver g3 \<longrightarrow> CurrentPlayer g3 = PLAYER_1)"
    by simp blast
  with wf p e n show ?thesis by simp
qed

section \<open>Moves after the end of the game\<close>

text \<open>
  Claim C1 at a game that is over. The game \<open>wonGame\<close> is reached by seven posts to
  handleMove; player 1 has won with four pieces in column 3 and GameOver is true. The
  claim asks that a further move be rejected and the state left as it is. Neither
  handler tests GameOver before placePiece: a request for column 0 is served by
  handleMove and by handleMoveAPI alike, the piece is placed and the turn passes to
  player 2. A second request, for column 4, completes four pieces of player 2 in that
  column, and Winner, which was 1, becomes 2.
\<close>

theorem move_after_game_over_is_accepted:
  "playMoves (startNewGame GAME_MODE_TWO_PLAYER) [3, 4, 3, 4, 3, 4, 3] = Inr wonGame \<and>
   GameOver wonGame \<and> Winner wonGame = PLAYER_1 \<and>
   handleMove wonGame (Some 0) 0 = Inr wonGameAfter \<and>
   handleMoveAPI wonGame 0 = Inr (wonGameAfter, True) \<and>
   Board wonGameAfter \<noteq> Board wonGame \<and>
   CurrentPlayer wonGameAfter \<noteq> CurrentPlayer wonGame \<and>
   playMoves wonGame [0, 4] = Inr wonGameTwice \<and>
   GameOver wonGameTwice \<and> Winner wonGameTwice = PLAYER_2"
  by (simp add: eval_simps handler_simps wonGame_def wonGameAfter_def wonGameTwice_def)

section \<open>Column validation\<close>

text \<open>
  Claim C2 at the inputs 7 and -1. handleMove rejects the column before placePiece is
  called, with the message for an invalid column. handleMoveAPI has no such test: it
  calls placePiece with the column of the request, and the first board read,
  \<open>Board[5][col]\<close>, is outside the array and panics.
\<close>

theorem handleMoveAPI_column_out_of_range:
  "handleMoveAPI (startNewGame GAME_MODE_TWO_PLAYER) 7 = Inl IndexOutOfRange \<and>
   handleMoveAPI (startNewGame GAME_MODE_TWO_PLAYER) (- 1) = Inl IndexOutOfRange \<and>
   handleMove (startNewGame GAME_MODE_TWO_PLAYER) (Some 7) 0 =
     Inr ((startNewGame GAME_MODE_TWO_PLAYER)\<lparr>StatusMessage := MsgInvalidColumn\<rparr>)"
  by (simp add: eval_simps handler_simps)

section \<open>The side to move after an accepted move\<close>

text \<open>
  Claim C3 at the automated side's move through aiMoveAPI. In ai mode the human's move
  in column 3 through handleMoveAPI leaves player 2 as the side to move. The automated
  move through aiMoveAPI is then accepted: the piece lands at (4, 3), checkForWin
  returns 0 there and the board is not full. The claim asks that the side to move
  become the other side; aiMoveAPI leaves it at player 2, because checkGameEnd switches
  the turn in ai mode only when CurrentPlayer is 1 and aiMoveAPI does not set it
  afterwards. The same two moves through handleMove, where aiMakeMove sets
  CurrentPlayer to 1 after checkGameEnd, end with the same board and player 1 to move.
\<close>

theorem aiMoveAPI_keeps_side_to_move:
  "handleMoveAPI (startNewGame GAME_MODE_AI) 3 = Inr (aiHumanMoved, True) \<and>
   CurrentPlayer aiHumanMoved = PLAYER_2 \<and>
   aiMoveAPI aiHumanMoved 0 = Inr (aiReplied, True) \<and>
   checkForWin aiReplied 4 3 = Inr 0 \<and> \<not> isBoardFull aiReplied \<and>
   \<not> GameOver aiReplied \<and> CurrentPlayer aiReplied = PLAYER_2 \<and>
   handleMove (startNewGame GAME_MODE_AI) (Some 3) 0 = Inr (aiReplied\<lparr>CurrentPlayer := PLAYER_1\<rparr>)"
  by (simp add: eval_simps handler_simps aiHumanMoved_def aiReplied_def)

end
